theory Spec2Isabelle
  imports Main "HOL-Library.Word"
begin

unbundle bit_operations_syntax

section \<open>Values, errors and bytes\<close>

text \<open>
  The assembler of \<^verbatim>\<open>asm.py\<close> works on Python integers (unbounded, \<^typ>\<open>int\<close>) and on
  \<^verbatim>\<open>bytes\<close> objects (lists of 8-bit values). A Python value that may be \<^verbatim>\<open>None\<close> is an
  \<open>option\<close>. Every exception the code can raise is a constructor of \<open>error\<close>, and a
  function that can raise returns \<open>error + 'a\<close>.
\<close>

type_synonym byte = "8 word"

datatype error =
    InvalidSize int nat   \<comment> \<open>\<^verbatim>\<open>Exception('invalid size {} for instruction mov at #{}')\<close>\<close>
  | StructError           \<comment> \<open>\<^verbatim>\<open>struct.error\<close>: value out of range of the format, or not an integer\<close>
  | UnboundLocalError     \<comment> \<open>local \<^verbatim>\<open>mode\<close> read before any branch assigned it\<close>
  | TypeError             \<comment> \<open>\<^verbatim>\<open>bytes += None\<close>, \<^verbatim>\<open>range(None)\<close>, \<^verbatim>\<open>None - int\<close>, wrong arity\<close>
  | IndexError            \<comment> \<open>\<^verbatim>\<open>inses[i]\<close> out of range\<close>
  | AttributeError        \<comment> \<open>a missing attribute (\<^verbatim>\<open>size\<close>, \<^verbatim>\<open>bytecode\<close>)\<close>
  | KeyError              \<comment> \<open>\<^verbatim>\<open>globals()[class_name]\<close> for a name that is not bound\<close>

section \<open>Packing\<close>

primrec le_bytes :: "nat \<Rightarrow> int \<Rightarrow> byte list" where
  "le_bytes 0 v = []"
| "le_bytes (Suc n) v = word_of_int (v mod 256) # le_bytes n (v div 256)"

text \<open>
  \<^verbatim>\<open>struct.pack\<close> with the little-endian unsigned formats \<^verbatim>\<open><B\<close>, \<^verbatim>\<open><H\<close>, \<^verbatim>\<open><I\<close>, \<^verbatim>\<open><Q\<close>
  (1, 2, 4, 8 bytes): it raises \<^verbatim>\<open>struct.error\<close> unless the argument is an integer in the
  range of the format.
\<close>

definition struct_pack :: "nat \<Rightarrow> int option \<Rightarrow> error + byte list" where
  "struct_pack n s =
     (case s of
        None \<Rightarrow> Inl StructError
      | Some v \<Rightarrow> if 0 \<le> v \<and> v < 2 ^ (8 * n) then Inr (le_bytes n v) else Inl StructError)"

definition pack64 :: "int option \<Rightarrow> error + byte list" where
  "pack64 s = struct_pack 8 s"

definition pack32 :: "int option \<Rightarrow> error + byte list" where
  "pack32 s = struct_pack 4 s"

definition pack16 :: "int option \<Rightarrow> error + byte list" where
  "pack16 s = struct_pack 2 s"

definition pack8 :: "int option \<Rightarrow> error + byte list" where
  "pack8 s = struct_pack 1 s"

text \<open>\<^verbatim>\<open>size2modifier\<close> reads the global \<^verbatim>\<open>inses\<close> for its message: \<open>n\<close> is \<^verbatim>\<open>len(inses)\<close>.\<close>

definition size2modifier :: "nat \<Rightarrow> int \<Rightarrow> error + int" where
  "size2modifier n sz =
     (if sz = 64 then Inr 64
      else if sz = 32 then Inr 48
      else if sz = 16 then Inr 32
      else if sz = 8 then Inr 16
      else Inl (InvalidSize sz n))"

text \<open>\<^verbatim>\<open>ctypes.c_uintN(x).value\<close> is \<open>x mod 2 ^ N\<close>; any other size falls off the end: \<^verbatim>\<open>None\<close>.\<close>

definition signed2unsigned :: "int \<Rightarrow> int \<Rightarrow> int option" where
  "signed2unsigned x sz =
     (if sz = 8 then Some (x mod 2 ^ 8)
      else if sz = 16 then Some (x mod 2 ^ 16)
      else if sz = 32 then Some (x mod 2 ^ 32)
      else if sz = 64 then Some (x mod 2 ^ 64)
      else None)"

text \<open>\<^verbatim>\<open>pack\<close> returns \<^verbatim>\<open>None\<close> (the inner \<open>option\<close>) for any other size.\<close>

definition pack :: "int option \<Rightarrow> int \<Rightarrow> error + byte list option" where
  "pack val sz =
     (if sz = 64 then map_sum id Some (pack64 val)
      else if sz = 32 then map_sum id Some (pack32 val)
      else if sz = 16 then map_sum id Some (pack16 val)
      else if sz = 8 then map_sum id Some (pack8 val)
      else Inr None)"

section \<open>Operands\<close>

text \<open>
  The operand classes \<^verbatim>\<open>Reg\<close>, \<^verbatim>\<open>Mem\<close>, \<^verbatim>\<open>StackMem\<close>, \<^verbatim>\<open>Imm\<close>, \<^verbatim>\<open>LabelRef\<close>. A register
  keeps the number parsed from its name; \<^verbatim>\<open>Imm.val\<close> is whatever the caller passed, and
  \<^verbatim>\<open>Label.rewrite\<close> may store the \<^verbatim>\<open>None\<close> of \<open>signed2unsigned\<close> there.
\<close>

datatype operand =
    is_Reg: Reg (num: int)
  | is_Mem: Mem (addr: operand)
  | is_StackMem: StackMem (addr: operand)
  | is_Imm: Imm (val: "int option")
  | is_LabelRef: LabelRef (ref_name: string)

definition Reg_make :: "int \<Rightarrow> int \<Rightarrow> error + byte list option" where
  "Reg_make r sz = map_sum id Some (pack8 (Some r))"

definition Imm_make :: "int option \<Rightarrow> int \<Rightarrow> error + byte list option" where
  "Imm_make v sz = pack v sz"

definition LabelRef_make :: "int \<Rightarrow> error + byte list option" where
  "LabelRef_make sz = pack (Some 0) sz"

text \<open>\<^verbatim>\<open>Mem.make\<close> delegates to an \<^verbatim>\<open>Imm\<close> or a \<^verbatim>\<open>Reg\<close> address and otherwise returns \<^verbatim>\<open>None\<close>.\<close>

definition Mem_make :: "operand \<Rightarrow> int \<Rightarrow> error + byte list option" where
  "Mem_make a sz =
     (if is_Imm a then Imm_make (val a) sz
      else if is_Reg a then Reg_make (num a) sz
      else Inr None)"

text \<open>
  \<^verbatim>\<open>StackMem.make(self)\<close> takes no size, and every caller passes one: the call
  \<^verbatim>\<open>operand.make(size)\<close> raises \<^verbatim>\<open>TypeError\<close> before the body runs.
\<close>

fun operand_make :: "operand \<Rightarrow> int \<Rightarrow> error + byte list option" where
  "operand_make (Reg r) sz = Reg_make r sz"
| "operand_make (Mem a) sz = Mem_make a sz"
| "operand_make (StackMem a) sz = Inl TypeError"
| "operand_make (Imm v) sz = Imm_make v sz"
| "operand_make (LabelRef nm) sz = LabelRef_make sz"

section \<open>Addressing modes\<close>

text \<open>
  In \<^verbatim>\<open>binop_mode\<close> and \<^verbatim>\<open>unop_mode\<close> the local \<^verbatim>\<open>mode\<close> is assigned by the first branch whose
  test holds, if any (\<open>None\<close>: no assignment). The \<^verbatim>\<open>return\<close> reads \<^verbatim>\<open>mode\<close> first, which
  raises \<^verbatim>\<open>UnboundLocalError\<close> when it was never assigned, and only then calls
  \<open>size2modifier\<close>.
\<close>

definition binop_mode_sel :: "operand \<Rightarrow> operand \<Rightarrow> int option" where
  "binop_mode_sel dest src =
     (if is_Reg dest \<and> is_Reg src then Some 0
      else if is_Reg dest \<and> is_Mem src then
        (if is_Imm (addr src) then Some 1
         else if is_Reg (addr src) then Some 0xc
         else None)
      else if is_Mem dest \<and> is_Reg src then
        (if is_Reg (addr dest) then Some 0xb
         else if is_Imm dest then Some 2
         else None)
      else if is_Reg dest \<and> is_StackMem src then
        (if is_Imm (addr src) then Some 3
         else if is_Reg (addr src) then Some 0xe
         else None)
      else if is_StackMem dest \<and> is_Reg src then
        (if is_Imm (addr dest) then Some 4
         else if is_Reg (addr dest) then Some 0xd
         else None)
      else if is_Reg dest \<and> is_Imm src then Some 5
      else None)"

definition binop_mode :: "nat \<Rightarrow> operand \<Rightarrow> operand \<Rightarrow> int \<Rightarrow> error + int" where
  "binop_mode n dest src sz =
     (case binop_mode_sel dest src of
        None \<Rightarrow> Inl UnboundLocalError
      | Some mode \<Rightarrow>
          (case size2modifier n sz of
             Inl e \<Rightarrow> Inl e
           | Inr m \<Rightarrow> Inr (mode OR m)))"

definition unop_mode_sel :: "operand \<Rightarrow> int option" where
  "unop_mode_sel dest =
     (if is_Reg dest then Some 6
      else if is_Imm dest then Some 7
      else if is_Mem dest then Some 8
      else if is_LabelRef dest then Some 7
      else None)"

definition unop_mode :: "nat \<Rightarrow> operand \<Rightarrow> int \<Rightarrow> error + int" where
  "unop_mode n dest sz =
     (case unop_mode_sel dest of
        None \<Rightarrow> Inl UnboundLocalError
      | Some mode \<Rightarrow>
          (case size2modifier n sz of
             Inl e \<Rightarrow> Inl e
           | Inr m \<Rightarrow> Inr (mode OR m)))"

section \<open>Instructions\<close>

text \<open>
  The instruction classes: \<^verbatim>\<open>Exit\<close> and \<^verbatim>\<open>Ret\<close>, the subclasses of \<^verbatim>\<open>BinOp\<close> and the
  subclasses of \<^verbatim>\<open>UnOp\<close>, each with its class attribute \<^verbatim>\<open>CODE\<close>.
\<close>

datatype binop_class = Mov | Add | Sub | Mul | Div | Mod | Xor | Or | And | Shl | Shr | Cmp

datatype unop_class =
  Not_op | Pop | Push | Call | Jmp | Je | Jne | Jg | Jl | Jge | Ja | Jnbe | Jb | Jc

fun binop_CODE :: "binop_class \<Rightarrow> int" where
  "binop_CODE Mov = 1"
| "binop_CODE Add = 2"
| "binop_CODE Sub = 3"
| "binop_CODE Mul = 4"
| "binop_CODE Div = 5"
| "binop_CODE Mod = 6"
| "binop_CODE Xor = 7"
| "binop_CODE Or = 8"
| "binop_CODE And = 9"
| "binop_CODE Shl = 10"
| "binop_CODE Shr = 11"
| "binop_CODE Cmp = 0x12"

fun unop_CODE :: "unop_class \<Rightarrow> int" where
  "unop_CODE Not_op = 12"
| "unop_CODE Pop = 13"
| "unop_CODE Push = 14"
| "unop_CODE Call = 0x10"
| "unop_CODE Jmp = 0x13"
| "unop_CODE Je = 0x14"
| "unop_CODE Jne = 0x15"
| "unop_CODE Jg = 0x16"
| "unop_CODE Jl = 0x18"
| "unop_CODE Jge = 0x19"
| "unop_CODE Ja = 0x1a"
| "unop_CODE Jnbe = 0x1b"
| "unop_CODE Jb = 0x1c"
| "unop_CODE Jc = 0x1d"

text \<open>
  An instruction object with its fields. \<^verbatim>\<open>Exit\<close> sets \<^verbatim>\<open>bytecode = bytes([0])\<close> when it is
  created and never changes it; \<^verbatim>\<open>Ret\<close> has no \<^verbatim>\<open>bytecode\<close> attribute until \<^verbatim>\<open>make\<close> ran
  (\<open>None\<close>); \<^verbatim>\<open>BinOp\<close> and \<^verbatim>\<open>UnOp\<close> start with \<^verbatim>\<open>bytecode = None\<close>.
\<close>

datatype ins =
    Exit
  | Ret "byte list option"
  | BinOp binop_class operand operand int "byte list option"
  | UnOp unop_class operand int "byte list option"

fun CODE :: "ins \<Rightarrow> int" where
  "CODE Exit = 0"
| "CODE (Ret bc) = 0x11"
| "CODE (BinOp c d s sz bc) = binop_CODE c"
| "CODE (UnOp c d sz bc) = unop_CODE c"

text \<open>The attribute read \<^verbatim>\<open>ins.bytecode\<close>, and \<^verbatim>\<open>len(ins.bytecode)\<close>.\<close>

fun bytecode :: "ins \<Rightarrow> error + byte list option" where
  "bytecode Exit = Inr (Some [0])"
| "bytecode (Ret None) = Inl AttributeError"
| "bytecode (Ret (Some b)) = Inr (Some b)"
| "bytecode (BinOp c d s sz bc) = Inr bc"
| "bytecode (UnOp c d sz bc) = Inr bc"

definition bytecode_len :: "ins \<Rightarrow> error + nat" where
  "bytecode_len i =
     (case bytecode i of
        Inl e \<Rightarrow> Inl e
      | Inr None \<Rightarrow> Inl TypeError
      | Inr (Some b) \<Rightarrow> Inr (length b))"

text \<open>
  \<^verbatim>\<open>bytes([x])\<close> for an opcode or a mode byte: both are in \<^verbatim>\<open>range(256)\<close> (lemmas
  \<open>CODE_range\<close>, \<open>binop_mode_range\<close>, \<open>unop_mode_range\<close>), so the conversion never raises.
\<close>

definition byte_of :: "int \<Rightarrow> byte" where
  "byte_of x = word_of_int x"

text \<open>\<^verbatim>\<open>self.bytecode += operand.make(size)\<close>: concatenating \<^verbatim>\<open>None\<close> raises \<^verbatim>\<open>TypeError\<close>.\<close>

definition append_made :: "byte list \<Rightarrow> error + byte list option \<Rightarrow> error + byte list" where
  "append_made bc r =
     (case r of
        Inl e \<Rightarrow> Inl e
      | Inr None \<Rightarrow> Inl TypeError
      | Inr (Some b) \<Rightarrow> Inr (bc @ b))"

definition BinOp_make :: "nat \<Rightarrow> int \<Rightarrow> operand \<Rightarrow> operand \<Rightarrow> int \<Rightarrow> error + byte list" where
  "BinOp_make n code dest src sz =
     (case binop_mode n dest src sz of
        Inl e \<Rightarrow> Inl e
      | Inr mode \<Rightarrow>
          (case append_made [byte_of code, byte_of mode] (operand_make dest sz) of
             Inl e \<Rightarrow> Inl e
           | Inr bc \<Rightarrow> append_made bc (operand_make src sz)))"

definition UnOp_make :: "nat \<Rightarrow> int \<Rightarrow> operand \<Rightarrow> int \<Rightarrow> error + byte list" where
  "UnOp_make n code dest sz =
     (case unop_mode n dest sz of
        Inl e \<Rightarrow> Inl e
      | Inr mode \<Rightarrow> append_made [byte_of code, byte_of mode] (operand_make dest sz))"

text \<open>
  The method call \<^verbatim>\<open>ins.make(code)\<close>, as the object it leaves behind: \<^verbatim>\<open>Exit.make\<close> only
  returns the bytecode it has, the others store a new one.
\<close>

fun ins_make :: "nat \<Rightarrow> ins \<Rightarrow> int \<Rightarrow> error + ins" where
  "ins_make n Exit code = Inr Exit"
| "ins_make n (Ret bc) code = Inr (Ret (Some [byte_of code]))"
| "ins_make n (BinOp c d s sz bc) code =
     (case BinOp_make n code d s sz of
        Inl e \<Rightarrow> Inl e
      | Inr b \<Rightarrow> Inr (BinOp c d s sz (Some b)))"
| "ins_make n (UnOp c d sz bc) code =
     (case UnOp_make n code d sz of
        Inl e \<Rightarrow> Inl e
      | Inr b \<Rightarrow> Inr (UnOp c d sz (Some b)))"

section \<open>Labels\<close>

record label =
  name :: string
  use_sites :: "nat list"
  def_site :: "nat option"
  resolved :: "int option"

definition Label :: "string \<Rightarrow> label" where
  "Label nm = \<lparr>name = nm, use_sites = [], def_site = None, resolved = None\<rparr>"

definition Label_tag :: "label \<Rightarrow> nat \<Rightarrow> label" where
  "Label_tag l d = l\<lparr>def_site := Some d\<rparr>"

definition Label_ref :: "label \<Rightarrow> nat \<Rightarrow> operand \<times> label" where
  "Label_ref l ins_idx = (LabelRef (name l), l\<lparr>use_sites := use_sites l @ [ins_idx]\<rparr>)"

text \<open>
  The loop \<^verbatim>\<open>for i in range(k): acc += len(inses[i].bytecode)\<close>, from \<open>0\<close>: the first index
  that is out of range or whose bytecode is missing raises.
\<close>

fun sum_lens :: "ins list \<Rightarrow> nat \<Rightarrow> error + nat" where
  "sum_lens is 0 = Inr 0"
| "sum_lens is (Suc k) =
     (case sum_lens is k of
        Inl e \<Rightarrow> Inl e
      | Inr acc \<Rightarrow>
          if k < length is then
            (case bytecode_len (is ! k) of
               Inl e \<Rightarrow> Inl e
             | Inr l \<Rightarrow> Inr (acc + l))
          else Inl IndexError)"

definition Label_resolve :: "ins list \<Rightarrow> label \<Rightarrow> error + label" where
  "Label_resolve is l =
     (case def_site l of
        None \<Rightarrow> Inl TypeError
      | Some d \<Rightarrow>
          (case sum_lens is d of
             Inl e \<Rightarrow> Inl e
           | Inr byte_offset \<Rightarrow> Inr (l\<lparr>resolved := Some (int byte_offset)\<rparr>)))"

text \<open>
  One round of the loop of \<^verbatim>\<open>Label.rewrite\<close>, for the use site \<open>use\<close>: the offset just after
  the instruction, \<^verbatim>\<open>self.resolved - offset\<close> (\<^verbatim>\<open>TypeError\<close> when \<^verbatim>\<open>resolved\<close> is \<^verbatim>\<open>None\<close>),
  \<^verbatim>\<open>ins.size\<close> (\<^verbatim>\<open>AttributeError\<close> on \<^verbatim>\<open>Exit\<close> and \<^verbatim>\<open>Ret\<close>), the new \<^verbatim>\<open>dest\<close> and the call of
  \<^verbatim>\<open>make\<close>.
\<close>

definition rewrite_use :: "nat \<Rightarrow> int option \<Rightarrow> nat \<Rightarrow> ins list \<Rightarrow> error + ins list" where
  "rewrite_use n res use is =
     (case sum_lens is (Suc use) of
        Inl e \<Rightarrow> Inl e
      | Inr offset \<Rightarrow>
          (case res of
             None \<Rightarrow> Inl TypeError
           | Some r \<Rightarrow>
               (case is ! use of
                  Exit \<Rightarrow> Inl AttributeError
                | Ret bc \<Rightarrow> Inl AttributeError
                | BinOp c d s sz bc \<Rightarrow>
                    (case ins_make n (BinOp c (Imm (signed2unsigned (r - int offset) sz)) s sz bc)
                            (binop_CODE c) of
                       Inl e \<Rightarrow> Inl e
                     | Inr i' \<Rightarrow> Inr (is[use := i']))
                | UnOp c d sz bc \<Rightarrow>
                    (case ins_make n (UnOp c (Imm (signed2unsigned (r - int offset) sz)) sz bc)
                            (unop_CODE c) of
                       Inl e \<Rightarrow> Inl e
                     | Inr i' \<Rightarrow> Inr (is[use := i'])))))"

fun rewrite_uses :: "nat \<Rightarrow> int option \<Rightarrow> nat list \<Rightarrow> ins list \<Rightarrow> error + ins list" where
  "rewrite_uses n res [] is = Inr is"
| "rewrite_uses n res (use # uses) is =
     (case rewrite_use n res use is of
        Inl e \<Rightarrow> Inl e
      | Inr is' \<Rightarrow> rewrite_uses n res uses is')"

definition Label_rewrite :: "label \<Rightarrow> ins list \<Rightarrow> error + ins list" where
  "Label_rewrite l is = rewrite_uses (length is) (resolved l) (use_sites l) is"

section \<open>The assembly session\<close>

text \<open>
  The globals \<^verbatim>\<open>inses\<close> and \<^verbatim>\<open>labels\<close>. The same \<^verbatim>\<open>Label\<close> object can be held by the client,
  be in \<^verbatim>\<open>labels\<close> (several times) and be mutated by \<^verbatim>\<open>tag\<close>, \<^verbatim>\<open>ref\<close> and \<^verbatim>\<open>resolve\<close>, so label
  objects live in a store \<open>heap\<close> and are named by their address; \<open>nlabels\<close> is the next
  free address. An instruction object is only ever reached through \<^verbatim>\<open>inses\<close>.
\<close>

record asm_state =
  inses :: "ins list"
  labels :: "nat list"
  heap :: "nat \<Rightarrow> label"
  nlabels :: nat

definition init :: asm_state where
  "init = \<lparr>inses = [], labels = [], heap = (\<lambda>a. Label []), nlabels = 0\<rparr>"

text \<open>The constructor call \<^verbatim>\<open>Label(name)\<close>: a fresh object.\<close>

definition new_Label :: "string \<Rightarrow> asm_state \<Rightarrow> nat \<times> asm_state" where
  "new_Label nm s =
     (nlabels s, s\<lparr>heap := (heap s)(nlabels s := Label nm), nlabels := Suc (nlabels s)\<rparr>)"

text \<open>
  \<^verbatim>\<open>binop_ins(insname, mod, x, y)\<close> looks the class up by its capitalised name,
  \<^verbatim>\<open>globals()[insname.capitalize()]\<close>, and appends a new object. The module makes one function
  of the builder interface for each entry of \<^verbatim>\<open>BINOPS\<close> (\<^verbatim>\<open>mov\<close>, \<^verbatim>\<open>add\<close>, \<open>\<dots>\<close>, \<^verbatim>\<open>cmp\<close>), which
  calls \<^verbatim>\<open>binop_ins\<close> with that entry. Every entry names a subclass of \<^verbatim>\<open>BinOp\<close>, so the lookup
  cannot fail; here the class stands for the entry. Neither the function nor the constructor
  checks the size or the operands.
\<close>

definition binop_ins :: "binop_class \<Rightarrow> int \<Rightarrow> operand \<Rightarrow> operand \<Rightarrow> asm_state \<Rightarrow> asm_state" where
  "binop_ins c modifier x y s = s\<lparr>inses := inses s @ [BinOp c x y modifier None]\<rparr>"

text \<open>
  The entries of \<^verbatim>\<open>UOPS\<close>, one function of the builder interface each, and the class that
  \<^verbatim>\<open>globals()[insname.capitalize()]\<close> finds for an entry. The module has no class \<^verbatim>\<open>Nop\<close>: for
  \<^verbatim>\<open>nop\<close> the lookup raises \<^verbatim>\<open>KeyError\<close>, before anything is appended. (The class \<^verbatim>\<open>Not\<close> has no
  entry.)
\<close>

datatype uop_name = push | pop | nop | jmp | call | je | jne | jg | jl | jge | ja | jnbe | jb | jc

fun uop_class :: "uop_name \<Rightarrow> unop_class option" where
  "uop_class push = Some Push"
| "uop_class pop = Some Pop"
| "uop_class nop = None"
| "uop_class jmp = Some Jmp"
| "uop_class call = Some Call"
| "uop_class je = Some Je"
| "uop_class jne = Some Jne"
| "uop_class jg = Some Jg"
| "uop_class jl = Some Jl"
| "uop_class jge = Some Jge"
| "uop_class ja = Some Ja"
| "uop_class jnbe = Some Jnbe"
| "uop_class jb = Some Jb"
| "uop_class jc = Some Jc"

definition uop_ins :: "uop_name \<Rightarrow> int \<Rightarrow> operand \<Rightarrow> asm_state \<Rightarrow> error + asm_state" where
  "uop_ins insname modifier x s =
     (case uop_class insname of
        None \<Rightarrow> Inl KeyError
      | Some c \<Rightarrow> Inr (s\<lparr>inses := inses s @ [UnOp c x modifier None]\<rparr>))"

definition exit :: "asm_state \<Rightarrow> asm_state" where
  "exit s = s\<lparr>inses := inses s @ [Exit]\<rparr>"

definition ret :: "asm_state \<Rightarrow> asm_state" where
  "ret s = s\<lparr>inses := inses s @ [Ret None]\<rparr>"

definition tag :: "nat \<Rightarrow> asm_state \<Rightarrow> asm_state" where
  "tag a s =
     s\<lparr>heap := (heap s)(a := Label_tag (heap s a) (length (inses s))),
       labels := labels s @ [a]\<rparr>"

definition ref :: "nat \<Rightarrow> asm_state \<Rightarrow> operand \<times> asm_state" where
  "ref a s =
     (case Label_ref (heap s a) (length (inses s)) of
        (r, l') \<Rightarrow> (r, s\<lparr>heap := (heap s)(a := l')\<rparr>))"

text \<open>Phase 1: \<^verbatim>\<open>for ins in inses: ins.make(ins.CODE)\<close>, with \<open>n = len(inses)\<close>.\<close>

fun make_all :: "nat \<Rightarrow> ins list \<Rightarrow> error + ins list" where
  "make_all n [] = Inr []"
| "make_all n (i # is) =
     (case ins_make n i (CODE i) of
        Inl e \<Rightarrow> Inl e
      | Inr i' \<Rightarrow>
          (case make_all n is of
             Inl e \<Rightarrow> Inl e
           | Inr is' \<Rightarrow> Inr (i' # is')))"

text \<open>Phase 2: \<^verbatim>\<open>for label in labels: label.resolve()\<close>.\<close>

fun resolve_all :: "ins list \<Rightarrow> nat list \<Rightarrow> (nat \<Rightarrow> label) \<Rightarrow> error + (nat \<Rightarrow> label)" where
  "resolve_all is [] h = Inr h"
| "resolve_all is (a # as) h =
     (case Label_resolve is (h a) of
        Inl e \<Rightarrow> Inl e
      | Inr l' \<Rightarrow> resolve_all is as (h(a := l')))"

text \<open>Phase 3: \<^verbatim>\<open>for label in labels: label.rewrite()\<close>.\<close>

fun rewrite_all :: "(nat \<Rightarrow> label) \<Rightarrow> nat list \<Rightarrow> ins list \<Rightarrow> error + ins list" where
  "rewrite_all h [] is = Inr is"
| "rewrite_all h (a # as) is =
     (case Label_rewrite (h a) is of
        Inl e \<Rightarrow> Inl e
      | Inr is' \<Rightarrow> rewrite_all h as is')"

text \<open>Phase 4: \<^verbatim>\<open>for ins in inses: bytecode += ins.bytecode\<close> (the \<^verbatim>\<open>print\<close> is left out).\<close>

fun emit_all :: "ins list \<Rightarrow> error + byte list" where
  "emit_all [] = Inr []"
| "emit_all (i # is) =
     (case append_made [] (bytecode i) of
        Inl e \<Rightarrow> Inl e
      | Inr b \<Rightarrow>
          (case emit_all is of
             Inl e \<Rightarrow> Inl e
           | Inr bs \<Rightarrow> Inr (b @ bs)))"

definition phase1 :: "asm_state \<Rightarrow> error + asm_state" where
  "phase1 s =
     (case make_all (length (inses s)) (inses s) of
        Inl e \<Rightarrow> Inl e
      | Inr is' \<Rightarrow> Inr (s\<lparr>inses := is'\<rparr>))"

definition phase2 :: "asm_state \<Rightarrow> error + asm_state" where
  "phase2 s =
     (case resolve_all (inses s) (labels s) (heap s) of
        Inl e \<Rightarrow> Inl e
      | Inr h' \<Rightarrow> Inr (s\<lparr>heap := h'\<rparr>))"

definition phase3 :: "asm_state \<Rightarrow> error + asm_state" where
  "phase3 s =
     (case rewrite_all (heap s) (labels s) (inses s) of
        Inl e \<Rightarrow> Inl e
      | Inr is' \<Rightarrow> Inr (s\<lparr>inses := is'\<rparr>))"

text \<open>
  \<^verbatim>\<open>assemble()\<close> returns the buffer; the session it leaves behind (patched instructions,
  resolved labels) is the second component.
\<close>

definition assemble :: "asm_state \<Rightarrow> error + byte list \<times> asm_state" where
  "assemble s =
     (case phase1 s of
        Inl e \<Rightarrow> Inl e
      | Inr s1 \<Rightarrow>
          (case phase2 s1 of
             Inl e \<Rightarrow> Inl e
           | Inr s2 \<Rightarrow>
               (case phase3 s2 of
                  Inl e \<Rightarrow> Inl e
                | Inr s3 \<Rightarrow>
                    (case emit_all (inses s3) of
                       Inl e \<Rightarrow> Inl e
                     | Inr out \<Rightarrow> Inr (out, s3)))))"

text \<open>Reading a byte string as a little-endian unsigned number.\<close>

definition le_value :: "byte list \<Rightarrow> int" where
  "le_value bs = foldr (\<lambda>b acc. uint b + 256 * acc) bs 0"

text \<open>
  Reading the same bytes as a two's-complement number of that many bytes: what a consumer
  does with a relative displacement.
\<close>

definition le_signed :: "byte list \<Rightarrow> int" where
  "le_signed bs =
     (if le_value bs < 2 ^ (8 * length bs - 1) then le_value bs
      else le_value bs - 2 ^ (8 * length bs))"

section \<open>Properties of a session\<close>

text \<open>
  A use site as the idiom \<^verbatim>\<open>jmp(B, ref(label))\<close> leaves it: the index recorded by \<^verbatim>\<open>ref\<close> is
  that of a unary instruction whose operand is a label reference.
\<close>

fun is_label_use :: "ins \<Rightarrow> bool" where
  "is_label_use (UnOp c d sz bc) = is_LabelRef d"
| "is_label_use i = False"

definition use_sites_ok :: "asm_state \<Rightarrow> bool" where
  "use_sites_ok s =
     (\<forall>a \<in> set (labels s). \<forall>u \<in> set (use_sites (heap s a)).
        u < length (inses s) \<and> is_label_use (inses s ! u))"

text \<open>No instruction is a use site of two different labels of the table.\<close>

definition use_sites_disjoint :: "asm_state \<Rightarrow> bool" where
  "use_sites_disjoint s =
     (\<forall>a \<in> set (labels s). \<forall>b \<in> set (labels s).
        a \<noteq> b \<longrightarrow> set (use_sites (heap s a)) \<inter> set (use_sites (heap s b)) = {})"

text \<open>
  What an instruction shows of its encoding: the length of its bytecode, its first two
  bytes (opcode and mode byte) and, for a unary instruction, its class and size.
\<close>

definition has_len :: "ins \<Rightarrow> bool" where
  "has_len i = (\<exists>l. bytecode_len i = Inr l)"

definition head2 :: "ins \<Rightarrow> byte list" where
  "head2 i = (case bytecode i of Inr (Some b) \<Rightarrow> take 2 b | _ \<Rightarrow> [])"

fun shape :: "ins \<Rightarrow> (unop_class \<times> int) option" where
  "shape (UnOp c d sz bc) = Some (c, sz)"
| "shape i = None"

definition layout :: "ins \<Rightarrow> (error + nat) \<times> byte list \<times> (unop_class \<times> int) option" where
  "layout i = (bytecode_len i, head2 i, shape i)"

text \<open>Two streams of the same layout that differ at most at the indices in \<open>D\<close>.\<close>

definition agree :: "nat set \<Rightarrow> ins list \<Rightarrow> ins list \<Rightarrow> bool" where
  "agree D is is' =
     (map layout is' = map layout is \<and> (\<forall>k < length is. k \<notin> D \<longrightarrow> is' ! k = is ! k))"

text \<open>
  An encoded unary instruction that holds a label reference or an immediate, and one that
  holds the displacement to the offset \<open>R\<close>.
\<close>

definition site_ok :: "nat \<Rightarrow> ins \<Rightarrow> bool" where
  "site_ok n i =
     (\<exists>c d sz bc. i = UnOp c d sz (Some bc) \<and> (is_LabelRef d \<or> (\<exists>v. d = Imm (Some v))) \<and>
        UnOp_make n (unop_CODE c) d sz = Inr bc)"

definition patched :: "int \<Rightarrow> ins list \<Rightarrow> nat \<Rightarrow> bool" where
  "patched R is u =
     (\<exists>off c sz bc. sum_lens is (Suc u) = Inr off \<and>
        is ! u = UnOp c (Imm (Some ((R - int off) mod 2 ^ nat sz))) sz (Some bc) \<and>
        UnOp_make (length is) (unop_CODE c) (Imm (Some ((R - int off) mod 2 ^ nat sz))) sz = Inr bc)"

text \<open>
  What the construction calls recorded in a session: the instructions with their operands
  and sizes, the label table, and each label's name, definition site and use sites; not the
  bytecode an instruction carries nor the offset a label was resolved to.
\<close>

fun clear_ins :: "ins \<Rightarrow> ins" where
  "clear_ins Exit = Exit"
| "clear_ins (Ret bc) = Ret None"
| "clear_ins (BinOp c d s sz bc) = BinOp c d s sz None"
| "clear_ins (UnOp c d sz bc) = UnOp c d sz None"

definition recorded :: "asm_state \<Rightarrow> asm_state" where
  "recorded s =
     s\<lparr>inses := map clear_ins (inses s), heap := (\<lambda>a. (heap s a)\<lparr>resolved := None\<rparr>)\<rparr>"

section \<open>Client programs\<close>

text \<open>
  A client program is a sequence of calls of the builder interface from the empty session;
  it leaves a session, or raises when one of its calls does.
\<close>

text \<open>\<^verbatim>\<open>L = Label('L'); jmp(B, ref(L))\<close>: the label is referenced and never tagged.\<close>

definition undefined_label_program :: "error + asm_state" where
  "undefined_label_program =
     (case new_Label ''L'' init of
        (L, s1) \<Rightarrow> (case ref L s1 of (x, s2) \<Rightarrow> uop_ins jmp 8 x s2))"

text \<open>\<^verbatim>\<open>L = Label('L'); tag(L); mov(B, r0, r1); tag(L)\<close>.\<close>

definition tagged_twice_program :: asm_state where
  "tagged_twice_program =
     (case new_Label ''L'' init of
        (L, s1) \<Rightarrow> tag L (binop_ins Mov 8 (Reg 0) (Reg 1) (tag L s1)))"

text \<open>
  The scenario \<^verbatim>\<open>mov(Q, r0, Imm(1)); tag(L); mov(Q, r1, Imm(2))\<close> with a \<^verbatim>\<open>jmp(w, ref(L))\<close>
  before the \<^verbatim>\<open>tag\<close>: either right before it, or first in the stream.
\<close>

definition scenario_jmp_second :: "int \<Rightarrow> error + asm_state" where
  "scenario_jmp_second w =
     (case new_Label ''L'' init of
        (L, s1) \<Rightarrow>
          (case ref L (binop_ins Mov 64 (Reg 0) (Imm (Some 1)) s1) of
             (x, s2) \<Rightarrow>
               (case uop_ins jmp w x s2 of
                  Inl e \<Rightarrow> Inl e
                | Inr s3 \<Rightarrow> Inr (binop_ins Mov 64 (Reg 1) (Imm (Some 2)) (tag L s3)))))"

definition scenario_jmp_first :: "int \<Rightarrow> error + asm_state" where
  "scenario_jmp_first w =
     (case new_Label ''L'' init of
        (L, s1) \<Rightarrow>
          (case ref L s1 of
             (x, s2) \<Rightarrow>
               (case uop_ins jmp w x s2 of
                  Inl e \<Rightarrow> Inl e
                | Inr s3 \<Rightarrow>
                    Inr (binop_ins Mov 64 (Reg 1) (Imm (Some 2))
                           (tag L (binop_ins Mov 64 (Reg 0) (Imm (Some 1)) s3))))))"

text \<open>\<^verbatim>\<open>tag(loop); add(Q, r1, r8); jl(B, ref(loop)); exit()\<close>: a backward jump.\<close>

definition backward_jump_program :: "error + asm_state" where
  "backward_jump_program =
     (case new_Label ''loop'' init of
        (L, s1) \<Rightarrow>
          (case ref L (binop_ins Add 64 (Reg 1) (Reg 8) (tag L s1)) of
             (x, s2) \<Rightarrow>
               (case uop_ins jl 8 x s2 of
                  Inl e \<Rightarrow> Inl e
                | Inr s3 \<Rightarrow> Inr (exit s3))))"

text \<open>
  \<^verbatim>\<open>y = ref(B); push(Q, r1); tag(B)\<close>: the result of \<^verbatim>\<open>ref\<close> is not the operand of the next
  instruction, so the recorded use site is the \<^verbatim>\<open>push\<close> of a register.
\<close>

definition stray_ref_program :: "error + asm_state" where
  "stray_ref_program =
     (case new_Label ''B'' init of
        (B, s1) \<Rightarrow>
          (case ref B s1 of
             (y, s2) \<Rightarrow>
               (case uop_ins push 64 (Reg 1) s2 of
                  Inl e \<Rightarrow> Inl e
                | Inr s3 \<Rightarrow> Inr (tag B s3))))"

text \<open>\<^verbatim>\<open>y = ref(B); push(Q, r1); jmp(B, ref(A)); tag(A); tag(B)\<close>.\<close>

definition stray_ref_before_jmp_program :: "error + asm_state" where
  "stray_ref_before_jmp_program =
     (case new_Label ''A'' init of
        (A, s1) \<Rightarrow>
          (case new_Label ''B'' s1 of
             (B, s2) \<Rightarrow>
               (case ref B s2 of
                  (y, s3) \<Rightarrow>
                    (case uop_ins push 64 (Reg 1) s3 of
                       Inl e \<Rightarrow> Inl e
                     | Inr s4 \<Rightarrow>
                         (case ref A s4 of
                            (x, s5) \<Rightarrow>
                              (case uop_ins jmp 8 x s5 of
                                 Inl e \<Rightarrow> Inl e
                               | Inr s6 \<Rightarrow> Inr (tag B (tag A s6))))))))"

text \<open>
  \<^verbatim>\<open>y = ref(L1); jmp(B, ref(L2)); tag(L1); mov(B, r0, r1); tag(L2)\<close>: the \<^verbatim>\<open>jmp\<close> is a use
  site of both labels.
\<close>

definition shared_use_site_program :: "error + asm_state" where
  "shared_use_site_program =
     (case new_Label ''L1'' init of
        (L1, s1) \<Rightarrow>
          (case new_Label ''L2'' s1 of
             (L2, s2) \<Rightarrow>
               (case ref L1 s2 of
                  (y, s3) \<Rightarrow>
                    (case ref L2 s3 of
                       (x, s4) \<Rightarrow>
                         (case uop_ins jmp 8 x s4 of
                            Inl e \<Rightarrow> Inl e
                          | Inr s5 \<Rightarrow>
                              Inr (tag L2 (binop_ins Mov 8 (Reg 0) (Reg 1) (tag L1 s5))))))))"

text \<open>\<^verbatim>\<open>jmp(B, ref(A)); y = ref(B); push(Q, r1); tag(A); tag(B)\<close>.\<close>

definition stray_ref_after_jmp_program :: "error + asm_state" where
  "stray_ref_after_jmp_program =
     (case new_Label ''A'' init of
        (A, s1) \<Rightarrow>
          (case new_Label ''B'' s1 of
             (B, s2) \<Rightarrow>
               (case ref A s2 of
                  (x, s3) \<Rightarrow>
                    (case uop_ins jmp 8 x s3 of
                       Inl e \<Rightarrow> Inl e
                     | Inr s4 \<Rightarrow>
                         (case ref B s4 of
                            (y, s5) \<Rightarrow>
                              (case uop_ins push 64 (Reg 1) s5 of
                                 Inl e \<Rightarrow> Inl e
                               | Inr s6 \<Rightarrow> Inr (tag B (tag A s6))))))))"

text \<open>
  The calls \<^verbatim>\<open>L = Label('L'); tag(L); jmp(B, ref(L))\<close>, made in a session \<open>s\<close>: from the empty
  session they build a jump to itself; made again in the session they left, they append to
  its stream.
\<close>

definition self_jump_calls :: "asm_state \<Rightarrow> error + asm_state" where
  "self_jump_calls s =
     (case new_Label ''L'' s of
        (L, s1) \<Rightarrow> (case ref L (tag L s1) of (x, s2) \<Rightarrow> uop_ins jmp 8 x s2))"

section \<open>Basic facts\<close>

lemmas api_defs = init_def new_Label_def Label_def binop_ins_def uop_ins_def exit_def ret_def
  tag_def ref_def Label_tag_def Label_ref_def

lemmas enc_defs = struct_pack_def pack64_def pack32_def pack16_def pack8_def size2modifier_def
  signed2unsigned_def pack_def Reg_make_def Imm_make_def LabelRef_make_def Mem_make_def
  binop_mode_sel_def binop_mode_def unop_mode_sel_def unop_mode_def bytecode_len_def byte_of_def
  append_made_def BinOp_make_def UnOp_make_def

lemmas asm_defs = Label_resolve_def rewrite_use_def Label_rewrite_def phase1_def phase2_def
  phase3_def assemble_def


lemma length_le_bytes: "length (le_bytes n v) = n"
  by (induction n arbitrary: v) auto

lemma uint_byte_mod: "uint (word_of_int (v mod 256) :: byte) = v mod 256"
  by (simp add: uint_word_of_int)

lemma le_value_le_bytes: "0 \<le> v \<Longrightarrow> v < 2 ^ (8 * n) \<Longrightarrow> le_value (le_bytes n v) = v"
proof (induction n arbitrary: v)
  case 0
  then show ?case by (simp add: le_value_def)
next
  case (Suc n)
  have "v div 256 < 2 ^ (8 * n)"
    using Suc.prems by (simp add: power_add less_mult_imp_div_less)
  moreover have "0 \<le> v div 256" using Suc.prems by simp
  ultimately have "le_value (le_bytes n (v div 256)) = v div 256"
    using Suc.IH by blast
  then show ?case
    by (simp add: le_value_def uint_byte_mod)
qed

lemma CODE_range: "0 \<le> CODE i \<and> CODE i < 256"
proof (cases i)
  case (BinOp c d s sz bc)
  then show ?thesis by (cases c) simp_all
next
  case (UnOp c d sz bc)
  then show ?thesis by (cases c) simp_all
qed simp_all

lemma size2modifier_Inr:
  "size2modifier n sz = Inr m \<Longrightarrow> m \<in> {16, 32, 48, 64} \<and> sz \<in> {8, 16, 32, 64}"
  by (auto simp: size2modifier_def split: if_splits)

lemma binop_mode_range: "binop_mode n d s sz = Inr m \<Longrightarrow> 0 \<le> m \<and> m < 256"
  by (auto simp: binop_mode_def binop_mode_sel_def dest!: size2modifier_Inr
           split: option.splits sum.splits if_splits)

lemma unop_mode_range: "unop_mode n d sz = Inr m \<Longrightarrow> 0 \<le> m \<and> m < 256"
  by (auto simp: unop_mode_def unop_mode_sel_def dest!: size2modifier_Inr
           split: option.splits sum.splits if_splits)

section \<open>Addressing modes of binary instructions\<close>

text \<open>
  The rows of the mode table that \<open>binop_mode\<close> reproduces, for a supported size with
  modifier \<open>m\<close>.
\<close>

lemma binop_mode_table:
  assumes "size2modifier n sz = Inr m"
  shows "binop_mode n (Reg a) (Reg b) sz = Inr (0 OR m)"
    and "binop_mode n (Reg a) (Mem (Imm v)) sz = Inr (1 OR m)"
    and "binop_mode n (Reg a) (Mem (Reg b)) sz = Inr (0xc OR m)"
    and "binop_mode n (Mem (Reg a)) (Reg b) sz = Inr (0xb OR m)"
    and "binop_mode n (Reg a) (StackMem (Imm v)) sz = Inr (3 OR m)"
    and "binop_mode n (Reg a) (StackMem (Reg b)) sz = Inr (0xe OR m)"
    and "binop_mode n (StackMem (Imm v)) (Reg b) sz = Inr (4 OR m)"
    and "binop_mode n (StackMem (Reg a)) (Reg b) sz = Inr (0xd OR m)"
    and "binop_mode n (Reg a) (Imm v) sz = Inr (5 OR m)"
  using assms by (simp_all add: binop_mode_def binop_mode_sel_def)

text \<open>
  C1. The claim gives a memory destination that wraps an immediate address, with a register
  source, the mode code \<open>0x2\<close> (for 64 bits the mode byte \<open>0x42\<close>). In \<^verbatim>\<open>binop_mode\<close> the
  inner test of that branch reads \<^verbatim>\<open>type(dest) is Imm\<close> where the sibling branches read
  \<^verbatim>\<open>type(dest.addr)\<close>; \<^verbatim>\<open>dest\<close> is a \<^verbatim>\<open>Mem\<close> there, so \<^verbatim>\<open>mode\<close> is never assigned and the
  call raises \<^verbatim>\<open>UnboundLocalError\<close>, for every address, register and size.
\<close>

theorem binop_mode_Mem_Imm_Reg:
  "binop_mode n (Mem (Imm v)) (Reg r) sz = Inl UnboundLocalError"
  by (simp add: binop_mode_def binop_mode_sel_def)

section \<open>Encoding an immediate\<close>

lemma Imm_make_valid:
  "sz \<in> {8, 16, 32, 64} \<Longrightarrow>
   Imm_make (Some v) sz =
     (if 0 \<le> v \<and> v < 2 ^ nat sz then Inr (Some (le_bytes (nat (sz div 8)) v))
      else Inl StructError)"
  by (auto simp: Imm_make_def pack_def pack64_def pack32_def pack16_def pack8_def struct_pack_def)

text \<open>
  C6, as the claim states it, fails: the 8-bit encoding of \<open>-1\<close> is not the byte \<open>0xff\<close>, and
  that of \<open>256\<close> is not \<open>0x00\<close>; \<^verbatim>\<open>struct.pack\<close> raises for both.
\<close>

theorem Imm_make_no_wraparound:
  "Imm_make (Some (- 1)) 8 = Inl StructError \<and> Imm_make (Some 256) 8 = Inl StructError"
  by (simp add: Imm_make_def pack_def pack8_def struct_pack_def)

text \<open>
  C6, amended. For a width of 8, 16, 32 or 64 bits and a value \<open>v\<close> with
  \<open>0 \<le> v < 2 ^ width\<close>, encoding the immediate succeeds and yields exactly \<open>width / 8\<close>
  bytes that hold \<open>v\<close> little-endian; for any other integer \<open>v\<close> (negative, or
  \<open>2 ^ width\<close> and above) it raises \<^verbatim>\<open>struct.error\<close>: there is no wraparound.
\<close>

theorem Imm_make_in_range:
  assumes "sz \<in> {8, 16, 32, 64}"
  shows "(0 \<le> v \<and> v < 2 ^ nat sz \<longrightarrow>
            (\<exists>bs. Imm_make (Some v) sz = Inr (Some bs) \<and> int (length bs) = sz div 8 \<and>
                  le_value bs = v)) \<and>
         (v < 0 \<or> 2 ^ nat sz \<le> v \<longrightarrow> Imm_make (Some v) sz = Inl StructError)"
proof -
  have eq: "nat sz = 8 * nat (sz div 8)" and pos: "0 \<le> sz div 8"
    using assms by auto
  show ?thesis
  proof (intro conjI impI)
    assume r: "0 \<le> v \<and> v < 2 ^ nat sz"
    then have "le_value (le_bytes (nat (sz div 8)) v) = v"
      using le_value_le_bytes [of v "nat (sz div 8)"] eq by simp
    then show "\<exists>bs. Imm_make (Some v) sz = Inr (Some bs) \<and> int (length bs) = sz div 8 \<and>
                  le_value bs = v"
      using r pos by (simp add: Imm_make_valid [OF assms] length_le_bytes)
  next
    assume "v < 0 \<or> 2 ^ nat sz \<le> v"
    then show "Imm_make (Some v) sz = Inl StructError"
      by (auto simp: Imm_make_valid [OF assms])
  qed
qed

theorem Imm_make_in_range_witness:
  "(\<exists>bs. Imm_make (Some 258) 16 = Inr (Some bs) \<and> int (length bs) = 2 \<and> le_value bs = 258) \<and>
   Imm_make (Some 65536) 16 = Inl StructError"
  using Imm_make_in_range [of 16 258] Imm_make_in_range [of 16 65536] by simp

section \<open>Failures of the encode pass\<close>

lemma make_all_Inl:
  "i \<in> set is \<Longrightarrow> ins_make n i (CODE i) = Inl e \<Longrightarrow> \<exists>e'. make_all n is = Inl e'"
  by (induction "is") (auto split: sum.splits)

lemma assemble_Inl_of_make:
  assumes "k < length (inses s)"
    and "ins_make (length (inses s)) (inses s ! k) (CODE (inses s ! k)) = Inl e"
  shows "\<exists>e'. phase1 s = Inl e' \<and> assemble s = Inl e'"
proof -
  have "inses s ! k \<in> set (inses s)" using assms(1) by simp
  then obtain e' where "make_all (length (inses s)) (inses s) = Inl e'"
    using make_all_Inl assms(2) by blast
  then show ?thesis by (simp add: assemble_def phase1_def)
qed

lemma binop_mode_sel_LabelRef:
  "is_LabelRef d \<or> is_LabelRef sr \<Longrightarrow> binop_mode_sel d sr = None"
  by (cases d; cases sr) (simp_all add: binop_mode_sel_def)

lemma unop_LabelRef_encodes:
  "size2modifier n sz = Inr m \<Longrightarrow>
   UnOp_make n code (LabelRef nm) sz =
     Inr ([byte_of code, byte_of (7 OR m)] @ le_bytes (nat (sz div 8)) 0)"
  by (auto simp: UnOp_make_def unop_mode_def unop_mode_sel_def size2modifier_def append_made_def
       LabelRef_make_def pack_def pack64_def pack32_def pack16_def pack8_def struct_pack_def
       split: if_splits)

text \<open>
  C10. A binary instruction whose destination or source is a label reference has no mode:
  its \<^verbatim>\<open>make\<close> raises (\<^verbatim>\<open>UnboundLocalError\<close>, from \<^verbatim>\<open>binop_mode\<close>) whatever the opcode and
  the size, and \<^verbatim>\<open>assemble()\<close> on a stream that holds such an instruction raises in phase 1 and
  returns no buffer. A unary instruction encodes a label reference (lemma
  \<open>unop_LabelRef_encodes\<close>).
\<close>

theorem binop_LabelRef_fails:
  assumes "k < length (inses s)"
    and "inses s ! k = BinOp c d sr sz bc"
    and "is_LabelRef d \<or> is_LabelRef sr"
  shows "BinOp_make n code d sr sz = Inl UnboundLocalError \<and>
         (\<exists>e. phase1 s = Inl e \<and> assemble s = Inl e) \<and>
         (sz' \<in> {8, 16, 32, 64} \<longrightarrow> (\<exists>b. UnOp_make n code (LabelRef nm) sz' = Inr b))"
proof -
  have m: "\<And>n code. BinOp_make n code d sr sz = Inl UnboundLocalError"
    using assms(3) by (simp add: BinOp_make_def binop_mode_def binop_mode_sel_LabelRef)
  then have "ins_make (length (inses s)) (inses s ! k) (CODE (inses s ! k)) = Inl UnboundLocalError"
    using assms(2) by simp
  then have "\<exists>e. phase1 s = Inl e \<and> assemble s = Inl e"
    using assemble_Inl_of_make [OF assms(1)] by blast
  moreover have "\<exists>b. UnOp_make n code (LabelRef nm) sz' = Inr b" if "sz' \<in> {8, 16, 32, 64}"
  proof -
    have "\<exists>m'. size2modifier n sz' = Inr m'"
      using that by (auto simp: size2modifier_def)
    then show ?thesis using unop_LabelRef_encodes by blast
  qed
  ultimately show ?thesis using m by blast
qed

theorem binop_LabelRef_fails_witness:
  "BinOp_make 1 1 (Reg 0) (LabelRef ''L'') 64 = Inl UnboundLocalError \<and>
   (\<exists>e. phase1 (binop_ins Mov 64 (Reg 0) (LabelRef ''L'') init) = Inl e \<and>
        assemble (binop_ins Mov 64 (Reg 0) (LabelRef ''L'') init) = Inl e) \<and>
   (\<exists>b. UnOp_make 1 1 (LabelRef ''L'') 8 = Inr b)"
  using binop_LabelRef_fails [where k = 0 and s = "binop_ins Mov 64 (Reg 0) (LabelRef ''L'') init"
      and c = Mov and d = "Reg 0" and sr = "LabelRef ''L''" and sz = 64 and bc = None
      and n = 1 and code = 1 and sz' = 8 and nm = "''L''"]
  by (simp add: binop_ins_def init_def)

lemma invalid_size_make:
  assumes "sz \<notin> {8, 16, 32, 64}"
  shows "\<exists>e. BinOp_make n code x y sz = Inl e" and "\<exists>e. UnOp_make n code x sz = Inl e"
  using assms
  by (auto simp: BinOp_make_def UnOp_make_def binop_mode_def unop_mode_def size2modifier_def
       split: option.splits)

text \<open>
  C7, as the claim states it, fails: \<^verbatim>\<open>mov(7, r0, r1)\<close> raises nothing and appends the
  instruction; the error comes from \<^verbatim>\<open>assemble()\<close>, and for the stream
  \<^verbatim>\<open>mov(7, r0, r1); mov(B, r2, r3); exit()\<close> it carries the number 3, the length of the stream,
  while the instruction is at index 0.
\<close>

theorem unsupported_size_not_raised_by_emit:
  "inses (binop_ins Mov 7 (Reg 0) (Reg 1) init) = [BinOp Mov (Reg 0) (Reg 1) 7 None] \<and>
   map_sum id fst
     (assemble (exit (binop_ins Mov 8 (Reg 2) (Reg 3) (binop_ins Mov 7 (Reg 0) (Reg 1) init)))) =
   Inl (InvalidSize 7 3)"
  by (simp add: api_defs enc_defs asm_defs eval_nat_numeral)

text \<open>
  C7, amended. An emit call with an operand size other than 8, 16, 32 or 64 raises nothing
  on account of the size. \<^verbatim>\<open>nop\<close> raises \<^verbatim>\<open>KeyError\<close> at every call, whatever the size, because
  the module has no class \<^verbatim>\<open>Nop\<close>, and appends nothing; every other emit call raises nothing
  and appends the instruction. The fatal error for the size is raised later, by
  \<^verbatim>\<open>assemble()\<close> in its encode pass: for every session whose stream holds such an instruction,
  phase 1 raises and \<^verbatim>\<open>assemble()\<close> returns no buffer.
\<close>

theorem unsupported_size_raised_by_assemble:
  assumes "sz \<notin> {8, 16, 32, 64}"
  shows "inses (binop_ins c sz x y s) = inses s @ [BinOp c x y sz None] \<and>
         (\<forall>c'. uop_class nm = Some c' \<longrightarrow>
            uop_ins nm sz x s = Inr (s\<lparr>inses := inses s @ [UnOp c' x sz None]\<rparr>)) \<and>
         uop_ins nop sz x s = Inl KeyError \<and>
         (\<forall>t k bc c'. k < length (inses t) \<and>
              (inses t ! k = BinOp c x y sz bc \<or> inses t ! k = UnOp c' x sz bc) \<longrightarrow>
              (\<exists>e. phase1 t = Inl e \<and> assemble t = Inl e))"
proof -
  have "\<exists>e. phase1 t = Inl e \<and> assemble t = Inl e"
    if "k < length (inses t)"
      and "inses t ! k = BinOp c x y sz bc \<or> inses t ! k = UnOp c' x sz bc" for t k bc c'
  proof -
    have "\<exists>e. ins_make (length (inses t)) (inses t ! k) (CODE (inses t ! k)) = Inl e"
    proof (rule disjE [OF that(2)])
      assume i: "inses t ! k = BinOp c x y sz bc"
      obtain e where "BinOp_make (length (inses t)) (binop_CODE c) x y sz = Inl e"
        using invalid_size_make(1) [OF assms] by blast
      then show ?thesis using i by simp
    next
      assume i: "inses t ! k = UnOp c' x sz bc"
      obtain e where "UnOp_make (length (inses t)) (unop_CODE c') x sz = Inl e"
        using invalid_size_make(2) [OF assms] by blast
      then show ?thesis using i by simp
    qed
    then show ?thesis using assemble_Inl_of_make [OF that(1)] by blast
  qed
  then show ?thesis by (auto simp: binop_ins_def uop_ins_def)
qed

theorem unsupported_size_raised_by_assemble_witness:
  "inses (binop_ins Mov 7 (Reg 0) (Reg 1) init) = inses init @ [BinOp Mov (Reg 0) (Reg 1) 7 None] \<and>
   uop_ins push 7 (Reg 0) init = Inr (init\<lparr>inses := inses init @ [UnOp Push (Reg 0) 7 None]\<rparr>) \<and>
   uop_ins nop 7 (Reg 0) init = Inl KeyError \<and>
   (\<exists>e. phase1 (exit (binop_ins Mov 7 (Reg 0) (Reg 1) init)) = Inl e \<and>
        assemble (exit (binop_ins Mov 7 (Reg 0) (Reg 1) init)) = Inl e) \<and>
   (\<exists>e. phase1 (init\<lparr>inses := inses init @ [UnOp Push (Reg 0) 7 None]\<rparr>) = Inl e \<and>
        assemble (init\<lparr>inses := inses init @ [UnOp Push (Reg 0) 7 None]\<rparr>) = Inl e)"
proof -
  have "(7::int) \<notin> {8, 16, 32, 64}" by simp
  from unsupported_size_raised_by_assemble
         [OF this, where c = Mov and x = "Reg 0" and y = "Reg 1" and s = init and nm = push]
  have e: "inses (binop_ins Mov 7 (Reg 0) (Reg 1) init) = inses init @ [BinOp Mov (Reg 0) (Reg 1) 7 None]"
    and u: "\<forall>c'. uop_class push = Some c' \<longrightarrow>
              uop_ins push 7 (Reg 0) init = Inr (init\<lparr>inses := inses init @ [UnOp c' (Reg 0) 7 None]\<rparr>)"
    and n: "uop_ins nop 7 (Reg 0) init = Inl KeyError"
    and a: "\<forall>t k bc c'. k < length (inses t) \<and>
              (inses t ! k = BinOp Mov (Reg 0) (Reg 1) 7 bc \<or> inses t ! k = UnOp c' (Reg 0) 7 bc) \<longrightarrow>
              (\<exists>e. phase1 t = Inl e \<and> assemble t = Inl e)"
    by blast+
  have u': "uop_ins push 7 (Reg 0) init = Inr (init\<lparr>inses := inses init @ [UnOp Push (Reg 0) 7 None]\<rparr>)"
    using u by simp
  have a1: "\<exists>e. phase1 (exit (binop_ins Mov 7 (Reg 0) (Reg 1) init)) = Inl e \<and>
            assemble (exit (binop_ins Mov 7 (Reg 0) (Reg 1) init)) = Inl e"
    by (rule a [rule_format, of 0 _ None Push]) (simp add: api_defs)
  have a2: "\<exists>e. phase1 (init\<lparr>inses := inses init @ [UnOp Push (Reg 0) 7 None]\<rparr>) = Inl e \<and>
            assemble (init\<lparr>inses := inses init @ [UnOp Push (Reg 0) 7 None]\<rparr>) = Inl e"
    by (rule a [rule_format, of 0 _ None Push]) (simp add: api_defs)
  show ?thesis by (intro conjI e u' n a1 a2)
qed

section \<open>Tagging a label\<close>

text \<open>
  C8, as the claim states it, fails: in \<^verbatim>\<open>tag(L); mov(B, r0, r1); tag(L)\<close> the second \<^verbatim>\<open>tag\<close>
  raises nothing; it moves the definition site from 0 to 1 and the label is in the table
  twice.
\<close>

theorem tag_twice_is_no_error:
  "def_site (heap tagged_twice_program 0) = Some 1 \<and> labels tagged_twice_program = [0, 0]"
  by (simp add: tagged_twice_program_def api_defs)

text \<open>
  C8, amended. \<^verbatim>\<open>tag\<close> never raises, whether or not the label was tagged before: it sets the
  label's definition site to the current end of the stream, replacing an earlier one, and
  appends the label to the label table once more; the stream is unchanged.
\<close>

theorem tag_overwrites_def_site:
  "def_site (heap (tag a s) a) = Some (length (inses s)) \<and>
   labels (tag a s) = labels s @ [a] \<and> inses (tag a s) = inses s \<and>
   def_site (heap (tag a (tag a s)) a) = Some (length (inses s)) \<and>
   labels (tag a (tag a s)) = labels s @ [a, a]"
  by (simp add: tag_def Label_tag_def)

section \<open>What the phases do\<close>

lemma pack_valid:
  "sz \<in> {8, 16, 32, 64} \<Longrightarrow>
   pack (Some v) sz =
     (if 0 \<le> v \<and> v < 2 ^ nat sz then Inr (Some (le_bytes (nat (sz div 8)) v))
      else Inl StructError)"
  by (auto simp: pack_def pack64_def pack32_def pack16_def pack8_def struct_pack_def)

lemma UnOp_make_placeholder_form:
  assumes "is_LabelRef d \<or> d = Imm (Some v)"
    and "UnOp_make n code d sz = Inr bc"
  shows "\<exists>m w. size2modifier n sz = Inr m \<and> sz \<in> {8, 16, 32, 64} \<and>
           bc = [byte_of code, byte_of (7 OR m)] @ le_bytes (nat (sz div 8)) w"
proof -
  obtain m where m: "size2modifier n sz = Inr m" and mode: "unop_mode n d sz = Inr (7 OR m)"
    using assms
    by (cases d) (auto simp: UnOp_make_def unop_mode_def unop_mode_sel_def split: sum.splits)
  have sz: "sz \<in> {8, 16, 32, 64}" using size2modifier_Inr [OF m] by simp
  have "\<exists>w. operand_make d sz = Inr (Some (le_bytes (nat (sz div 8)) w))"
  proof (cases d)
    case (Imm x)
    then have x: "x = Some v" using assms(1) by simp
    have "pack (Some v) sz \<noteq> Inl StructError"
      using assms(2) mode Imm x
      by (auto simp: UnOp_make_def append_made_def Imm_make_def split: sum.splits)
    then show ?thesis using Imm x pack_valid [OF sz, of v]
      by (auto simp: Imm_make_def split: if_splits)
  next
    case (LabelRef nm)
    then show ?thesis using pack_valid [OF sz, of 0]
      by (auto simp: LabelRef_make_def)
  qed (insert assms(1), auto)
  then obtain w where "operand_make d sz = Inr (Some (le_bytes (nat (sz div 8)) w))" by blast
  then have "bc = [byte_of code, byte_of (7 OR m)] @ le_bytes (nat (sz div 8)) w"
    using assms(2) mode by (simp add: UnOp_make_def append_made_def)
  then show ?thesis using m sz by blast
qed

lemma UnOp_make_Imm:
  assumes "size2modifier n sz = Inr m" and "0 \<le> v" and "v < 2 ^ nat sz"
  shows "UnOp_make n code (Imm (Some v)) sz =
           Inr ([byte_of code, byte_of (7 OR m)] @ le_bytes (nat (sz div 8)) v)"
proof -
  have sz: "sz \<in> {8, 16, 32, 64}" using size2modifier_Inr [OF assms(1)] by simp
  show ?thesis
    using assms pack_valid [OF sz, of v]
    by (simp add: UnOp_make_def unop_mode_def unop_mode_sel_def append_made_def Imm_make_def)
qed

lemma signed2unsigned_valid:
  "sz \<in> {8, 16, 32, 64} \<Longrightarrow> signed2unsigned x sz = Some (x mod 2 ^ nat sz)"
  by (auto simp: signed2unsigned_def)

lemma le_bytes_0: "le_bytes n 0 = replicate n 0"
  by (induction n) simp_all

lemma make_all_nth:
  "make_all n is = Inr is' \<Longrightarrow>
   length is' = length is \<and>
   (\<forall>k < length is. ins_make n (is ! k) (CODE (is ! k)) = Inr (is' ! k))"
proof (induction "is" arbitrary: is')
  case Nil
  then show ?case by simp
next
  case (Cons i "is")
  then obtain i' is1 where i': "ins_make n i (CODE i) = Inr i'"
    and is1: "make_all n is = Inr is1" and eq: "is' = i' # is1"
    by (auto split: sum.splits)
  have "length is1 = length is"
    and "\<forall>k < length is. ins_make n (is ! k) (CODE (is ! k)) = Inr (is1 ! k)"
    using Cons.IH [OF is1] by simp_all
  then show ?case using i' eq by (auto simp: nth_Cons split: nat.splits)
qed

lemma ins_make_has_len: "ins_make n i code = Inr i' \<Longrightarrow> has_len i'"
  by (cases i) (auto simp: has_len_def bytecode_len_def split: sum.splits)

lemma ins_make_label_use:
  "is_label_use i \<Longrightarrow> ins_make n i (CODE i) = Inr i' \<Longrightarrow> site_ok n i'"
  by (cases i) (auto simp: site_ok_def split: sum.splits)

lemma resolve_all_props:
  "resolve_all is as h = Inr h' \<Longrightarrow>
   (\<forall>a. use_sites (h' a) = use_sites (h a)) \<and>
   (\<forall>a. a \<in> set as \<or> resolved (h a) \<noteq> None \<longrightarrow> resolved (h' a) \<noteq> None)"
proof (induction as arbitrary: h)
  case Nil
  then show ?case by simp
next
  case (Cons b as)
  then obtain l' where l': "Label_resolve is (h b) = Inr l'"
    and rest: "resolve_all is as (h(b := l')) = Inr h'"
    by (auto split: sum.splits)
  have l: "use_sites l' = use_sites (h b)" "resolved l' \<noteq> None"
    using l' by (auto simp: Label_resolve_def split: option.splits sum.splits)
  have "\<forall>a. use_sites (h' a) = use_sites ((h(b := l')) a)"
    and "\<forall>a. a \<in> set as \<or> resolved ((h(b := l')) a) \<noteq> None \<longrightarrow> resolved (h' a) \<noteq> None"
    using Cons.IH [OF rest] by simp_all
  then show ?case using l by (auto simp: fun_upd_def split: if_splits)
qed

lemma resolve_all_other:
  "a \<notin> set as \<Longrightarrow>
   resolve_all is as (h(a := l)) = map_sum id (\<lambda>h'. h'(a := l)) (resolve_all is as h)"
proof (induction as arbitrary: h)
  case Nil
  then show ?case by simp
next
  case (Cons b as)
  then have ne: "b \<noteq> a" and notin: "a \<notin> set as" by auto
  show ?case
  proof (cases "Label_resolve is (h b)")
    case (Inl e)
    then show ?thesis using ne by simp
  next
    case (Inr l')
    have tw: "(h(a := l))(b := l') = (h(b := l'))(a := l)"
      using ne by (simp add: fun_upd_twist)
    have hb: "(h(a := l)) b = h b" using ne by simp
    have "resolve_all is (b # as) (h(a := l)) = resolve_all is as ((h(a := l))(b := l'))"
      by (simp only: resolve_all.simps hb Inr sum.case)
    also have "\<dots> = resolve_all is as ((h(b := l'))(a := l))"
      by (simp only: tw)
    also have "\<dots> = map_sum id (\<lambda>h'. h'(a := l)) (resolve_all is as (h(b := l')))"
      by (rule Cons.IH [OF notin])
    also have "\<dots> = map_sum id (\<lambda>h'. h'(a := l)) (resolve_all is (b # as) h)"
      by (simp only: resolve_all.simps Inr sum.case)
    finally show ?thesis .
  qed
qed

lemma rewrite_all_cong:
  "(\<And>b. b \<in> set as \<Longrightarrow> h b = h' b) \<Longrightarrow> rewrite_all h as is = rewrite_all h' as is"
  by (induction as arbitrary: "is") (auto split: sum.splits)

lemma rewrite_use_other:
  "rewrite_use n res u is = Inr is' \<Longrightarrow> length is' = length is \<and> (k \<noteq> u \<longrightarrow> is' ! k = is ! k)"
  by (auto simp: rewrite_use_def split: sum.splits option.splits ins.splits)

lemma rewrite_uses_other:
  "rewrite_uses n res us is = Inr is' \<Longrightarrow>
   length is' = length is \<and> (k \<notin> set us \<longrightarrow> is' ! k = is ! k)"
proof (induction us arbitrary: "is")
  case Nil
  then show ?case by simp
next
  case (Cons u us)
  then obtain is1 where 1: "rewrite_use n res u is = Inr is1"
    and 2: "rewrite_uses n res us is1 = Inr is'"
    by (auto split: sum.splits)
  show ?case using rewrite_use_other [OF 1, of k] Cons.IH [OF 2] by auto
qed

lemma rewrite_all_other:
  "rewrite_all h as is = Inr is' \<Longrightarrow>
   length is' = length is \<and> ((\<forall>a \<in> set as. k \<notin> set (use_sites (h a))) \<longrightarrow> is' ! k = is ! k)"
proof (induction as arbitrary: "is")
  case Nil
  then show ?case by simp
next
  case (Cons a as)
  then obtain is1 where 1: "rewrite_uses (length is) (resolved (h a)) (use_sites (h a)) is = Inr is1"
    and 2: "rewrite_all h as is1 = Inr is'"
    by (auto simp: Label_rewrite_def split: sum.splits)
  show ?case using rewrite_uses_other [OF 1, of k] Cons.IH [OF 2] by auto
qed

section \<open>Labels outside the label table\<close>

lemma unreferenced_placeholder_kept:
  assumes a: "assemble s = Inr (out, t)"
    and u: "u < length (inses s)"
    and i: "inses s ! u = UnOp c (LabelRef nm) sz bc"
    and n: "\<forall>b \<in> set (labels s). u \<notin> set (use_sites (heap s b))"
  shows "\<exists>m. size2modifier (length (inses s)) sz = Inr m \<and>
           inses t ! u = UnOp c (LabelRef nm) sz
             (Some ([byte_of (unop_CODE c), byte_of (7 OR m)] @ replicate (nat (sz div 8)) 0))"
proof -
  obtain is1 h2 is3 where m: "make_all (length (inses s)) (inses s) = Inr is1"
    and r: "resolve_all is1 (labels s) (heap s) = Inr h2"
    and w: "rewrite_all h2 (labels s) is1 = Inr is3"
    and t: "inses t = is3"
    using a by (auto simp: assemble_def phase1_def phase2_def phase3_def split: sum.splits)
  have "ins_make (length (inses s)) (inses s ! u) (CODE (inses s ! u)) = Inr (is1 ! u)"
    using make_all_nth [OF m] u by simp
  then obtain b where b: "UnOp_make (length (inses s)) (unop_CODE c) (LabelRef nm) sz = Inr b"
    and i1: "is1 ! u = UnOp c (LabelRef nm) sz (Some b)"
    using i by (auto split: sum.splits)
  obtain m' where m': "size2modifier (length (inses s)) sz = Inr m'"
    using UnOp_make_placeholder_form [OF _ b] by auto
  have bb: "b = [byte_of (unop_CODE c), byte_of (7 OR m')] @ replicate (nat (sz div 8)) 0"
    using unop_LabelRef_encodes [OF m', of "unop_CODE c" nm] b by (simp add: le_bytes_0)
  have "\<forall>a \<in> set (labels s). u \<notin> set (use_sites (h2 a))"
    using resolve_all_props [OF r] n by simp
  then have "is3 ! u = is1 ! u" using rewrite_all_other [OF w, of u] by simp
  then show ?thesis using m' i1 bb t by simp
qed

text \<open>
  C3, as the claim states it, fails: for \<^verbatim>\<open>L = Label('L'); jmp(B, ref(L))\<close>, where \<^verbatim>\<open>L\<close> is
  never tagged, \<^verbatim>\<open>assemble()\<close> raises nothing and returns the three bytes of the \<^verbatim>\<open>jmp\<close> with
  the zero placeholder as its operand.
\<close>

theorem undefined_label_assembles:
  "\<exists>s. undefined_label_program = Inr s \<and>
       map_sum id fst (assemble s) = Inr [0x13, 0x17, 0]"
  by (simp add: undefined_label_program_def api_defs enc_defs asm_defs eval_nat_numeral)

text \<open>
  C3, amended. Only \<^verbatim>\<open>tag\<close> puts a label into the label table, and \<^verbatim>\<open>assemble()\<close> resolves and
  rewrites the labels of the table only. A label that is referenced but never tagged is
  therefore ignored: whatever its use sites, \<^verbatim>\<open>assemble()\<close> returns the buffer, or raises the
  error, that it returns or raises without them, and leaves the label as it is; no
  unresolved-symbol error exists. When \<^verbatim>\<open>assemble()\<close> returns, a unary instruction that
  holds a label reference and is not a use site of a label of the table still holds it, with
  the zero placeholder of its width as operand bytes.
\<close>

theorem assemble_ignores_untagged:
  assumes "a \<notin> set (labels s)"
  shows "assemble (s\<lparr>heap := (heap s)(a := l)\<rparr>) =
           map_sum id (\<lambda>(out, t). (out, t\<lparr>heap := (heap t)(a := l)\<rparr>)) (assemble s) \<and>
         (\<forall>out t u c nm sz bc.
            assemble s = Inr (out, t) \<and> u < length (inses s) \<and>
            inses s ! u = UnOp c (LabelRef nm) sz bc \<and>
            (\<forall>b \<in> set (labels s). u \<notin> set (use_sites (heap s b))) \<longrightarrow>
            (\<exists>m. size2modifier (length (inses s)) sz = Inr m \<and>
               inses t ! u = UnOp c (LabelRef nm) sz
                 (Some ([byte_of (unop_CODE c), byte_of (7 OR m)] @ replicate (nat (sz div 8)) 0))))"
proof -
  have "rewrite_all (h'(a := l)) (labels s) is = rewrite_all h' (labels s) is" for h' "is"
    using assms by (intro rewrite_all_cong) auto
  then have "assemble (s\<lparr>heap := (heap s)(a := l)\<rparr>) =
           map_sum id (\<lambda>(out, t). (out, t\<lparr>heap := (heap t)(a := l)\<rparr>)) (assemble s)"
    using assms
    by (auto simp: assemble_def phase1_def phase2_def phase3_def resolve_all_other
        split: sum.splits)
  then show ?thesis using unreferenced_placeholder_kept by blast
qed

theorem assemble_ignores_untagged_witness:
  "\<exists>s. undefined_label_program = Inr s \<and> 0 \<notin> set (labels s) \<and>
     map_sum id fst (assemble (s\<lparr>heap := (heap s)(0 := Label ''L'')\<rparr>)) = Inr [0x13, 0x17, 0] \<and>
     (\<exists>out t. assemble s = Inr (out, t) \<and>
        inses t ! 0 = UnOp Jmp (LabelRef ''L'') 8 (Some [0x13, 0x17, 0]))"
proof -
  have "\<exists>s. undefined_label_program = Inr s \<and> 0 \<notin> set (labels s) \<and>
          0 < length (inses s) \<and> inses s ! 0 = UnOp Jmp (LabelRef ''L'') 8 None \<and>
          (\<forall>b \<in> set (labels s). 0 \<notin> set (use_sites (heap s b))) \<and>
          (\<exists>out t. assemble s = Inr (out, t) \<and> out = [0x13, 0x17, 0])"
    by (simp add: undefined_label_program_def api_defs enc_defs asm_defs eval_nat_numeral)
  then obtain s out t where p: "undefined_label_program = Inr s"
    and n: "0 \<notin> set (labels s)"
    and i: "0 < length (inses s)" "inses s ! 0 = UnOp Jmp (LabelRef ''L'') 8 None"
      "\<forall>b \<in> set (labels s). 0 \<notin> set (use_sites (heap s b))"
    and a: "assemble s = Inr (out, t)" and o: "out = [0x13, 0x17, 0]"
    by blast
  note th = assemble_ignores_untagged [OF n, of "Label ''L''"]
  have 1: "map_sum id fst (assemble (s\<lparr>heap := (heap s)(0 := Label ''L'')\<rparr>)) = Inr [0x13, 0x17, 0]"
    using th a o by (simp add: map_sum_def)
  have "\<exists>m. size2modifier (length (inses s)) 8 = Inr m \<and>
           inses t ! 0 = UnOp Jmp (LabelRef ''L'') 8
             (Some ([byte_of (unop_CODE Jmp), byte_of (7 OR m)] @ replicate (nat (8 div 8)) 0))"
    by (rule th [THEN conjunct2, rule_format, of out t 0 Jmp "''L''" 8 None])
       (intro conjI a i)
  then have "inses t ! 0 = UnOp Jmp (LabelRef ''L'') 8 (Some [0x13, 0x17, 0])"
    by (auto simp: size2modifier_def byte_of_def)
  then show ?thesis using p n 1 a by blast
qed

section \<open>The scenario of the specification\<close>

text \<open>
  C5, as the claim states it, fails: with an 8-bit \<^verbatim>\<open>jmp\<close> right before the \<^verbatim>\<open>tag\<close>, the first
  \<^verbatim>\<open>mov\<close> is 11 bytes long and the label resolves to 14, not to 9.
\<close>

theorem scenario_not_9:
  "\<exists>s out t. scenario_jmp_second 8 = Inr s \<and> assemble s = Inr (out, t) \<and>
     bytecode_len (inses t ! 0) = Inr 11 \<and> resolved (heap t 0) = Some 14 \<and>
     resolved (heap t 0) \<noteq> Some 9"
  by (simp add: scenario_jmp_second_def api_defs enc_defs asm_defs eval_nat_numeral)

text \<open>
  C5, amended. In the scenario, a 64-bit \<^verbatim>\<open>mov\<close> with a register destination and an
  immediate source is 11 bytes long (opcode, mode byte, one register byte, eight immediate
  bytes) and a \<^verbatim>\<open>jmp\<close> of width \<open>w\<close> is \<open>2 + w / 8\<close> bytes long, so the label resolves to
  \<open>13 + w / 8\<close> (14 for an 8-bit \<^verbatim>\<open>jmp\<close>) wherever the \<^verbatim>\<open>jmp\<close> stands before the \<^verbatim>\<open>tag\<close>. The
  patched immediate of the \<^verbatim>\<open>jmp\<close> is the resolved offset minus the offset just after the
  \<^verbatim>\<open>jmp\<close>: 0 when the \<^verbatim>\<open>jmp\<close> stands right before the \<^verbatim>\<open>tag\<close>, 11 when it stands first.
\<close>

theorem scenario_offsets:
  assumes "w \<in> {8, 16, 32, 64}"
  shows "(\<exists>s out t bc. scenario_jmp_second w = Inr s \<and> assemble s = Inr (out, t) \<and>
            bytecode_len (inses t ! 0) = Inr 11 \<and>
            resolved (heap t 0) = Some (13 + w div 8) \<and>
            sum_lens (inses t) 2 = Inr (nat (13 + w div 8)) \<and>
            inses t ! 1 = UnOp Jmp (Imm (Some ((13 + w div 8) - (13 + w div 8)))) w bc) \<and>
         (\<exists>s out t bc. scenario_jmp_first w = Inr s \<and> assemble s = Inr (out, t) \<and>
            bytecode_len (inses t ! 1) = Inr 11 \<and>
            resolved (heap t 0) = Some (13 + w div 8) \<and>
            sum_lens (inses t) 1 = Inr (nat (2 + w div 8)) \<and>
            inses t ! 0 = UnOp Jmp (Imm (Some ((13 + w div 8) - (2 + w div 8)))) w bc)"
proof (rule conjI)
  show "\<exists>s out t bc. scenario_jmp_second w = Inr s \<and> assemble s = Inr (out, t) \<and>
            bytecode_len (inses t ! 0) = Inr 11 \<and>
            resolved (heap t 0) = Some (13 + w div 8) \<and>
            sum_lens (inses t) 2 = Inr (nat (13 + w div 8)) \<and>
            inses t ! 1 = UnOp Jmp (Imm (Some ((13 + w div 8) - (13 + w div 8)))) w bc"
    using assms
    by (auto simp add: scenario_jmp_second_def api_defs enc_defs asm_defs eval_nat_numeral)
  show "\<exists>s out t bc. scenario_jmp_first w = Inr s \<and> assemble s = Inr (out, t) \<and>
            bytecode_len (inses t ! 1) = Inr 11 \<and>
            resolved (heap t 0) = Some (13 + w div 8) \<and>
            sum_lens (inses t) 1 = Inr (nat (2 + w div 8)) \<and>
            inses t ! 0 = UnOp Jmp (Imm (Some ((13 + w div 8) - (2 + w div 8)))) w bc"
    using assms
    by (auto simp add: scenario_jmp_first_def api_defs enc_defs asm_defs eval_nat_numeral)
qed

theorem scenario_offsets_witness:
  "(\<exists>s out t bc. scenario_jmp_second 8 = Inr s \<and> assemble s = Inr (out, t) \<and>
      bytecode_len (inses t ! 0) = Inr 11 \<and> resolved (heap t 0) = Some 14 \<and>
      sum_lens (inses t) 2 = Inr 14 \<and> inses t ! 1 = UnOp Jmp (Imm (Some 0)) 8 bc) \<and>
   (\<exists>s out t bc. scenario_jmp_first 8 = Inr s \<and> assemble s = Inr (out, t) \<and>
      bytecode_len (inses t ! 1) = Inr 11 \<and> resolved (heap t 0) = Some 14 \<and>
      sum_lens (inses t) 1 = Inr 3 \<and> inses t ! 0 = UnOp Jmp (Imm (Some 11)) 8 bc)"
  using scenario_offsets [of 8] by simp

section \<open>The rewrite pass\<close>

lemma sum_lens_cong:
  "map bytecode_len is = map bytecode_len is' \<Longrightarrow> sum_lens is k = sum_lens is' k"
proof (induction k)
  case 0
  then show ?case by simp
next
  case (Suc k)
  have len: "length is = length is'" using Suc.prems by (metis length_map)
  have "k < length is \<Longrightarrow> bytecode_len (is ! k) = bytecode_len (is' ! k)"
    using Suc.prems len by (metis nth_map)
  then show ?case using Suc len by (auto split: sum.splits)
qed

lemma sum_lens_defined:
  "\<forall>i \<in> set is. has_len i \<Longrightarrow> k \<le> length is \<Longrightarrow> \<exists>off. sum_lens is k = Inr off"
proof (induction k)
  case 0
  then show ?case by simp
next
  case (Suc k)
  then obtain off where "sum_lens is k = Inr off" by auto
  moreover have "is ! k \<in> set is" using Suc.prems by simp
  then obtain l where "bytecode_len (is ! k) = Inr l"
    using Suc.prems(1) unfolding has_len_def by blast
  ultimately show ?case using Suc.prems by simp
qed

lemma site_ok_has_len: "site_ok n i \<Longrightarrow> has_len i"
  by (auto simp: site_ok_def has_len_def bytecode_len_def)

text \<open>
  One round of the loop of \<^verbatim>\<open>Label.rewrite\<close> at a use site that holds a label reference or an
  immediate.
\<close>

lemma rewrite_use_site:
  assumes lens: "\<forall>i \<in> set is. has_len i"
    and u: "u < length is"
    and ok: "site_ok n (is ! u)"
  shows "\<exists>off c d sz bc bc'.
           sum_lens is (Suc u) = Inr off \<and> is ! u = UnOp c d sz (Some bc) \<and>
           rewrite_use n (Some R) u is =
             Inr (is[u := UnOp c (Imm (Some ((R - int off) mod 2 ^ nat sz))) sz (Some bc')]) \<and>
           site_ok n (UnOp c (Imm (Some ((R - int off) mod 2 ^ nat sz))) sz (Some bc')) \<and>
           length bc' = length bc \<and> take 2 bc' = take 2 bc"
proof -
  obtain off where off: "sum_lens is (Suc u) = Inr off"
    using sum_lens_defined [OF lens, of "Suc u"] u by auto
  obtain c d sz bc where i: "is ! u = UnOp c d sz (Some bc)"
    and d: "is_LabelRef d \<or> (\<exists>v. d = Imm (Some v))"
    and mk: "UnOp_make n (unop_CODE c) d sz = Inr bc"
    using ok by (auto simp: site_ok_def)
  obtain v0 where d': "is_LabelRef d \<or> d = Imm (Some v0)" using d by auto
  obtain m w where m: "size2modifier n sz = Inr m" and sz: "sz \<in> {8, 16, 32, 64}"
    and bc: "bc = [byte_of (unop_CODE c), byte_of (7 OR m)] @ le_bytes (nat (sz div 8)) w"
    using UnOp_make_placeholder_form [OF d' mk] by blast
  define v where "v = (R - int off) mod 2 ^ nat sz"
  define bc' where "bc' = [byte_of (unop_CODE c), byte_of (7 OR m)] @ le_bytes (nat (sz div 8)) v"
  have v: "0 \<le> v" "v < 2 ^ nat sz" by (simp_all add: v_def)
  have mk': "UnOp_make n (unop_CODE c) (Imm (Some v)) sz = Inr bc'"
    using UnOp_make_Imm [OF m v] by (simp add: bc'_def)
  have s2u: "signed2unsigned (R - int off) sz = Some v"
    using signed2unsigned_valid [OF sz] by (simp add: v_def)
  have "rewrite_use n (Some R) u is = Inr (is[u := UnOp c (Imm (Some v)) sz (Some bc')])"
    using off i s2u mk' by (simp add: rewrite_use_def)
  moreover have "site_ok n (UnOp c (Imm (Some v)) sz (Some bc'))"
    using mk' by (simp add: site_ok_def)
  moreover have "length bc' = length bc" "take 2 bc' = take 2 bc"
    by (simp_all add: bc bc'_def length_le_bytes)
  ultimately show ?thesis using off i unfolding v_def by blast
qed

lemma layout_lens: "map layout is' = map layout is \<Longrightarrow> map bytecode_len is' = map bytecode_len is"
proof -
  assume "map layout is' = map layout is"
  then have "map (fst \<circ> layout) is' = map (fst \<circ> layout) is"
    by (metis map_map)
  then show ?thesis by (simp add: layout_def comp_def)
qed

lemma layout_has_len:
  assumes "map layout is' = map layout is" and "\<forall>i \<in> set is. has_len i"
  shows "\<forall>i \<in> set is'. has_len i"
proof
  fix i assume "i \<in> set is'"
  then obtain k where k: "k < length is'" "is' ! k = i" by (auto simp: in_set_conv_nth)
  have len: "length is' = length is" using assms(1) by (metis length_map)
  have "bytecode_len (is' ! k) = bytecode_len (is ! k)"
    using layout_lens [OF assms(1)] k(1) len by (metis nth_map)
  moreover have "has_len (is ! k)" using assms(2) k(1) len by simp
  ultimately show "has_len i" using k(2) by (simp add: has_len_def)
qed

lemma layout_update:
  assumes "u < length is" and "layout i' = layout (is ! u)"
  shows "map layout (is[u := i']) = map layout is"
  using assms by (simp add: map_update list_update_same_conv)

lemma patched_cong:
  assumes "map layout is' = map layout is" and "is' ! u = is ! u" and "patched R is u"
  shows "patched R is' u"
proof -
  have "length is' = length is" using assms(1) by (metis length_map)
  moreover have "sum_lens is' (Suc u) = sum_lens is (Suc u)"
    using sum_lens_cong [OF layout_lens [OF assms(1)]] .
  ultimately show ?thesis using assms(2,3) by (simp add: patched_def)
qed

lemma rewrite_uses_sites:
  assumes "\<forall>i \<in> set is. has_len i"
    and "\<forall>u \<in> set us. u < length is \<and> site_ok (length is) (is ! u)"
  shows "\<exists>is'. rewrite_uses (length is) (Some R) us is = Inr is' \<and>
           map layout is' = map layout is \<and>
           (\<forall>k < length is. site_ok (length is) (is ! k) \<longrightarrow> site_ok (length is) (is' ! k)) \<and>
           (\<forall>k < length is. k \<notin> set us \<longrightarrow> is' ! k = is ! k) \<and>
           (\<forall>u \<in> set us. patched R is' u)"
  using assms
proof (induction us arbitrary: "is")
  case Nil
  then show ?case by simp
next
  case (Cons u us)
  let ?n = "length is"
  have u: "u < ?n" and ok: "site_ok ?n (is ! u)" using Cons.prems(2) by auto
  obtain off c d sz bc bc' where off: "sum_lens is (Suc u) = Inr off"
    and i: "is ! u = UnOp c d sz (Some bc)"
    and rw: "rewrite_use ?n (Some R) u is =
               Inr (is[u := UnOp c (Imm (Some ((R - int off) mod 2 ^ nat sz))) sz (Some bc')])"
    and ok': "site_ok ?n (UnOp c (Imm (Some ((R - int off) mod 2 ^ nat sz))) sz (Some bc'))"
    and len: "length bc' = length bc" and hd: "take 2 bc' = take 2 bc"
    using rewrite_use_site [OF Cons.prems(1) u ok, of R] by blast
  define i' where "i' = UnOp c (Imm (Some ((R - int off) mod 2 ^ nat sz))) sz (Some bc')"
  define is1 where "is1 = is[u := i']"
  have lay_i: "layout i' = layout (is ! u)"
    using i len hd by (simp add: i'_def layout_def bytecode_len_def head2_def)
  have lay1: "map layout is1 = map layout is"
    unfolding is1_def using layout_update [OF u lay_i] .
  have n1: "length is1 = ?n" by (simp add: is1_def)
  have lens1: "\<forall>i \<in> set is1. has_len i"
    using layout_has_len [OF lay1 Cons.prems(1)] .
  have ok1: "site_ok ?n (is1 ! k)" if "k < ?n" "site_ok ?n (is ! k)" for k
    using that ok' by (cases "k = u") (simp_all add: is1_def i'_def)
  have sites1: "\<forall>u' \<in> set us. u' < length is1 \<and> site_ok (length is1) (is1 ! u')"
    using Cons.prems(2) ok1 n1 by auto
  obtain is' where r: "rewrite_uses (length is1) (Some R) us is1 = Inr is'"
    and lay': "map layout is' = map layout is1"
    and keep': "\<forall>k < length is1. site_ok (length is1) (is1 ! k) \<longrightarrow> site_ok (length is1) (is' ! k)"
    and same': "\<forall>k < length is1. k \<notin> set us \<longrightarrow> is' ! k = is1 ! k"
    and pat': "\<forall>u' \<in> set us. patched R is' u'"
    using Cons.IH [OF lens1 sites1] by blast
  have p1: "patched R is1 u"
  proof -
    have "sum_lens is1 (Suc u) = sum_lens is (Suc u)"
      by (rule sum_lens_cong [OF layout_lens [OF lay1]])
    then have "sum_lens is1 (Suc u) = Inr off"
      using off by (simp only:)
    moreover have "is1 ! u = i'" using u by (simp add: is1_def)
    moreover have "UnOp_make (length is1) (unop_CODE c) (Imm (Some ((R - int off) mod 2 ^ nat sz))) sz
                     = Inr bc'"
      using ok' n1 by (simp add: site_ok_def)
    ultimately show ?thesis by (simp add: patched_def i'_def)
  qed
  have pu: "patched R is' u"
  proof (cases "u \<in> set us")
    case True
    then show ?thesis using pat' by blast
  next
    case False
    then have "is' ! u = is1 ! u" using same' u n1 by simp
    then show ?thesis using patched_cong [OF lay' _ p1] by simp
  qed
  have "rewrite_uses ?n (Some R) (u # us) is = Inr is'"
    using rw r n1 by (simp add: is1_def i'_def)
  moreover have "map layout is' = map layout is" using lay' lay1 by simp
  moreover have "\<forall>k < ?n. site_ok ?n (is ! k) \<longrightarrow> site_ok ?n (is' ! k)"
    using keep' ok1 n1 by simp
  moreover have "\<forall>k < ?n. k \<notin> set (u # us) \<longrightarrow> is' ! k = is ! k"
    using same' n1 by (simp add: is1_def)
  moreover have "\<forall>u' \<in> set (u # us). patched R is' u'"
    using pu pat' by simp
  ultimately show ?case by blast
qed

lemma rewrite_all_sites:
  assumes "\<forall>i \<in> set is. has_len i"
    and "\<forall>a \<in> set as. \<forall>u \<in> set (use_sites (h a)). u < length is \<and> site_ok (length is) (is ! u)"
    and "\<forall>a \<in> set as. \<exists>R. resolved (h a) = Some R"
  shows "\<exists>is'. rewrite_all h as is = Inr is' \<and>
           map layout is' = map layout is \<and>
           (\<forall>k < length is. site_ok (length is) (is ! k) \<longrightarrow> site_ok (length is) (is' ! k)) \<and>
           (\<forall>k < length is. (\<forall>a \<in> set as. k \<notin> set (use_sites (h a))) \<longrightarrow> is' ! k = is ! k) \<and>
           ((\<forall>a \<in> set as. \<forall>b \<in> set as.
               a \<noteq> b \<longrightarrow> set (use_sites (h a)) \<inter> set (use_sites (h b)) = {}) \<longrightarrow>
            (\<forall>a \<in> set as. \<forall>u \<in> set (use_sites (h a)). \<forall>R.
               resolved (h a) = Some R \<longrightarrow> patched R is' u))"
  using assms
proof (induction as arbitrary: "is")
  case Nil
  then show ?case by simp
next
  case (Cons a as)
  let ?n = "length is"
  obtain R where R: "resolved (h a) = Some R" using Cons.prems(3) by auto
  have sites_a: "\<forall>u \<in> set (use_sites (h a)). u < ?n \<and> site_ok ?n (is ! u)"
    using Cons.prems(2) by simp
  obtain is1 where r1: "rewrite_uses ?n (Some R) (use_sites (h a)) is = Inr is1"
    and lay1: "map layout is1 = map layout is"
    and keep1: "\<forall>k < ?n. site_ok ?n (is ! k) \<longrightarrow> site_ok ?n (is1 ! k)"
    and same1: "\<forall>k < ?n. k \<notin> set (use_sites (h a)) \<longrightarrow> is1 ! k = is ! k"
    and pat1: "\<forall>u \<in> set (use_sites (h a)). patched R is1 u"
    using rewrite_uses_sites [OF Cons.prems(1) sites_a, of R] by blast
  have n1: "length is1 = ?n" using lay1 by (metis length_map)
  have lens1: "\<forall>i \<in> set is1. has_len i"
    using layout_has_len [OF lay1 Cons.prems(1)] .
  have sites1: "\<forall>b \<in> set as. \<forall>u \<in> set (use_sites (h b)).
                  u < length is1 \<and> site_ok (length is1) (is1 ! u)"
    using Cons.prems(2) keep1 n1 by simp
  have res1: "\<forall>b \<in> set as. \<exists>R. resolved (h b) = Some R"
    using Cons.prems(3) by simp
  obtain is' where r: "rewrite_all h as is1 = Inr is'"
    and lay': "map layout is' = map layout is1"
    and keep': "\<forall>k < length is1. site_ok (length is1) (is1 ! k) \<longrightarrow> site_ok (length is1) (is' ! k)"
    and same': "\<forall>k < length is1. (\<forall>b \<in> set as. k \<notin> set (use_sites (h b))) \<longrightarrow> is' ! k = is1 ! k"
    and pat': "(\<forall>b \<in> set as. \<forall>c \<in> set as.
                  b \<noteq> c \<longrightarrow> set (use_sites (h b)) \<inter> set (use_sites (h c)) = {}) \<longrightarrow>
               (\<forall>b \<in> set as. \<forall>u \<in> set (use_sites (h b)). \<forall>R.
                  resolved (h b) = Some R \<longrightarrow> patched R is' u)"
    using Cons.IH [OF lens1 sites1 res1] by blast
  have "rewrite_all h (a # as) is = Inr is'"
    using r1 r R by (simp add: Label_rewrite_def)
  moreover have "map layout is' = map layout is" using lay' lay1 by simp
  moreover have "\<forall>k < ?n. site_ok ?n (is ! k) \<longrightarrow> site_ok ?n (is' ! k)"
    using keep' keep1 n1 by simp
  moreover have "\<forall>k < ?n. (\<forall>b \<in> set (a # as). k \<notin> set (use_sites (h b))) \<longrightarrow> is' ! k = is ! k"
    using same' same1 n1 by simp
  moreover have "\<forall>b \<in> set (a # as). \<forall>u \<in> set (use_sites (h b)). \<forall>R'.
                   resolved (h b) = Some R' \<longrightarrow> patched R' is' u"
    if dis: "\<forall>b \<in> set (a # as). \<forall>c \<in> set (a # as).
               b \<noteq> c \<longrightarrow> set (use_sites (h b)) \<inter> set (use_sites (h c)) = {}"
  proof (intro ballI allI impI)
    fix b u R'
    assume b: "b \<in> set (a # as)" and ub: "u \<in> set (use_sites (h b))"
      and R': "resolved (h b) = Some R'"
    have tail: "\<forall>b \<in> set as. \<forall>u \<in> set (use_sites (h b)). \<forall>R.
                  resolved (h b) = Some R \<longrightarrow> patched R is' u"
      using pat' dis by simp
    show "patched R' is' u"
    proof (cases "b \<in> set as")
      case True
      then show ?thesis using tail ub R' by blast
    next
      case False
      then have ba: "b = a" using b by simp
      then have RR: "R' = R" using R R' by simp
      have uu: "u < ?n" using sites_a ub ba by simp
      have "\<forall>c \<in> set as. u \<notin> set (use_sites (h c))"
      proof
        fix c assume c: "c \<in> set as"
        then have "c \<noteq> a" using False ba by auto
        then have "set (use_sites (h a)) \<inter> set (use_sites (h c)) = {}"
          using dis c by simp
        then show "u \<notin> set (use_sites (h c))" using ub ba by auto
      qed
      then have "is' ! u = is1 ! u" using same' uu n1 by simp
      moreover have "patched R is1 u" using pat1 ub ba by simp
      ultimately show ?thesis using patched_cong [OF lay'] RR by simp
    qed
  qed
  ultimately show ?case by blast
qed

text \<open>
  What the first two phases leave for the third.
\<close>

lemma phases_1_2:
  assumes p1: "phase1 s = Inr s1" and p2: "phase2 s1 = Inr s2" and ok: "use_sites_ok s"
  shows "inses s2 = inses s1" and "labels s2 = labels s" and "length (inses s1) = length (inses s)"
    and "\<forall>i \<in> set (inses s2). has_len i"
    and "\<forall>a \<in> set (labels s2). \<forall>u \<in> set (use_sites (heap s2 a)).
           u < length (inses s2) \<and> site_ok (length (inses s2)) (inses s2 ! u)"
    and "\<forall>a \<in> set (labels s2). \<exists>R. resolved (heap s2 a) = Some R"
    and "\<forall>a. use_sites (heap s2 a) = use_sites (heap s a)"
proof -
  obtain is1 where m: "make_all (length (inses s)) (inses s) = Inr is1"
    and s1: "s1 = s\<lparr>inses := is1\<rparr>"
    using p1 by (auto simp: phase1_def split: sum.splits)
  obtain h2 where r: "resolve_all (inses s1) (labels s1) (heap s1) = Inr h2"
    and s2: "s2 = s1\<lparr>heap := h2\<rparr>"
    using p2 by (auto simp: phase2_def split: sum.splits)
  have len: "length is1 = length (inses s)"
    and nth: "\<forall>k < length (inses s).
                 ins_make (length (inses s)) (inses s ! k) (CODE (inses s ! k)) = Inr (is1 ! k)"
    using make_all_nth [OF m] by simp_all
  show "inses s2 = inses s1" "labels s2 = labels s" "length (inses s1) = length (inses s)"
    using s1 s2 len by simp_all
  show "\<forall>i \<in> set (inses s2). has_len i"
  proof
    fix i assume "i \<in> set (inses s2)"
    then obtain k where "k < length is1" "is1 ! k = i"
      using s1 s2 by (auto simp: in_set_conv_nth)
    then show "has_len i" using nth len ins_make_has_len by metis
  qed
  have us: "\<forall>a. use_sites (h2 a) = use_sites (heap s a)"
    and res: "\<forall>a. a \<in> set (labels s) \<or> resolved (heap s a) \<noteq> None \<longrightarrow> resolved (h2 a) \<noteq> None"
    using resolve_all_props [OF r] s1 by simp_all
  show "\<forall>a. use_sites (heap s2 a) = use_sites (heap s a)" using us s2 by simp
  show "\<forall>a \<in> set (labels s2). \<exists>R. resolved (heap s2 a) = Some R"
    using res s1 s2 by auto
  show "\<forall>a \<in> set (labels s2). \<forall>u \<in> set (use_sites (heap s2 a)).
           u < length (inses s2) \<and> site_ok (length (inses s2)) (inses s2 ! u)"
  proof (intro ballI)
    fix a u assume a: "a \<in> set (labels s2)" and u: "u \<in> set (use_sites (heap s2 a))"
    have "a \<in> set (labels s)" "u \<in> set (use_sites (heap s a))"
      using a u us s1 s2 by simp_all
    then have k: "u < length (inses s)" and lu: "is_label_use (inses s ! u)"
      using ok by (auto simp: use_sites_ok_def)
    have "site_ok (length (inses s)) (is1 ! u)"
      using ins_make_label_use [OF lu] nth k by blast
    then show "u < length (inses s2) \<and> site_ok (length (inses s2)) (inses s2 ! u)"
      using k len s1 s2 by simp
  qed
qed

text \<open>
  C4, as the claim states it, fails: in \<^verbatim>\<open>y = ref(B); push(Q, r1); tag(B)\<close> the recorded
  use site is a \<^verbatim>\<open>push\<close> of a register, 3 bytes long after phase 1; the rewrite pass gives it
  an immediate operand, and \<^verbatim>\<open>assemble()\<close> returns it 10 bytes long.
\<close>

theorem stray_ref_changes_length:
  "\<exists>s s1 s2 s3 out. stray_ref_program = Inr s \<and> phase1 s = Inr s1 \<and> phase2 s1 = Inr s2 \<and>
     phase3 s2 = Inr s3 \<and> assemble s = Inr (out, s3) \<and>
     bytecode_len (inses s1 ! 0) = Inr 3 \<and> bytecode_len (inses s3 ! 0) = Inr 10"
  by (simp add: stray_ref_program_def api_defs enc_defs asm_defs eval_nat_numeral)

text \<open>
  C4, amended. In every session in which each recorded use site of each label of the table
  is the index of a unary instruction that holds a label reference, the rewrite pass cannot
  fail, and every instruction has after it the byte length that phase 1 computed, and the
  same opcode and mode byte: a rewrite replaces the placeholder by an immediate of the same
  width.
\<close>

theorem rewrite_keeps_lengths:
  assumes "phase1 s = Inr s1" and "phase2 s1 = Inr s2" and "use_sites_ok s"
  shows "\<exists>s3. phase3 s2 = Inr s3 \<and> length (inses s3) = length (inses s1) \<and>
           (\<forall>k < length (inses s1). \<exists>l.
              bytecode_len (inses s1 ! k) = Inr l \<and> bytecode_len (inses s3 ! k) = Inr l \<and>
              head2 (inses s3 ! k) = head2 (inses s1 ! k))"
proof -
  note f = phases_1_2 [OF assms]
  obtain is3 where r: "rewrite_all (heap s2) (labels s2) (inses s2) = Inr is3"
    and lay: "map layout is3 = map layout (inses s2)"
    using rewrite_all_sites [OF f(4) f(5) f(6)] by blast
  have len: "length is3 = length (inses s1)" using lay f(1) by (metis length_map)
  have "\<exists>l. bytecode_len (inses s1 ! k) = Inr l \<and> bytecode_len (is3 ! k) = Inr l \<and>
             head2 (is3 ! k) = head2 (inses s1 ! k)" if k: "k < length (inses s1)" for k
  proof -
    have "layout (is3 ! k) = layout (inses s1 ! k)"
      using lay k len f(1) by (metis nth_map)
    moreover have "has_len (inses s1 ! k)" using f(4) f(1) k by simp
    ultimately show ?thesis by (auto simp: layout_def has_len_def)
  qed
  then show ?thesis using r len by (simp add: phase3_def)
qed

theorem rewrite_keeps_lengths_witness:
  "\<exists>s. backward_jump_program = Inr s \<and> use_sites_ok s \<and>
     (\<exists>s1 s2 s3. phase1 s = Inr s1 \<and> phase2 s1 = Inr s2 \<and>
        phase3 s2 = Inr s3 \<and> length (inses s3) = length (inses s1) \<and>
        (\<forall>k < length (inses s1). \<exists>l.
           bytecode_len (inses s1 ! k) = Inr l \<and> bytecode_len (inses s3 ! k) = Inr l \<and>
           head2 (inses s3 ! k) = head2 (inses s1 ! k)))"
proof -
  have "\<exists>s. backward_jump_program = Inr s \<and> use_sites_ok s \<and>
          (\<exists>s1. phase1 s = Inr s1 \<and> (\<exists>s2. phase2 s1 = Inr s2))"
    by (simp add: backward_jump_program_def use_sites_ok_def api_defs enc_defs asm_defs
        eval_nat_numeral)
  then obtain s s1 s2 where p: "backward_jump_program = Inr s" and ok: "use_sites_ok s"
    and s1: "phase1 s = Inr s1" and s2: "phase2 s1 = Inr s2"
    by blast
  show ?thesis using p ok s1 s2 rewrite_keeps_lengths [OF s1 s2 ok] by blast
qed

lemma le_signed_mod:
  assumes "0 \<le> v" and "v < 2 ^ (8 * n)"
  shows "(le_signed (le_bytes n v) + x) mod 2 ^ (8 * n) = (v + x) mod 2 ^ (8 * n)"
proof -
  have "le_value (le_bytes n v) = v" using le_value_le_bytes [OF assms] .
  then have "le_signed (le_bytes n v) = v \<or> le_signed (le_bytes n v) = v - 2 ^ (8 * n)"
    by (simp add: le_signed_def length_le_bytes)
  then show ?thesis
  proof
    assume "le_signed (le_bytes n v) = v"
    then show ?thesis by simp
  next
    assume "le_signed (le_bytes n v) = v - 2 ^ (8 * n)"
    then have "le_signed (le_bytes n v) + x = (v + x) + - 1 * 2 ^ (8 * n)" by simp
    then show ?thesis by (simp only: mod_mult_self1)
  qed
qed

lemma patched_round_trip:
  assumes "patched R is u"
  shows "\<exists>after c sz bc v. sum_lens is (Suc u) = Inr after \<and>
           is ! u = UnOp c (Imm (Some v)) sz (Some bc) \<and>
           signed2unsigned (R - int after) sz = Some v \<and>
           le_value (drop 2 bc) = v \<and>
           (le_signed (drop 2 bc) + int after) mod 2 ^ nat sz = R mod 2 ^ nat sz"
proof -
  obtain off c sz bc where off: "sum_lens is (Suc u) = Inr off"
    and i: "is ! u = UnOp c (Imm (Some ((R - int off) mod 2 ^ nat sz))) sz (Some bc)"
    and mk: "UnOp_make (length is) (unop_CODE c) (Imm (Some ((R - int off) mod 2 ^ nat sz))) sz
               = Inr bc"
    using assms by (auto simp: patched_def)
  define v where "v = (R - int off) mod 2 ^ nat sz"
  obtain m w where sz: "sz \<in> {8, 16, 32, 64}"
    using UnOp_make_placeholder_form [OF _ mk] by blast
  obtain m where m: "size2modifier (length is) sz = Inr m"
    using sz by (auto simp: size2modifier_def)
  have v: "0 \<le> v" "v < 2 ^ nat sz" by (simp_all add: v_def)
  have eq: "nat sz = 8 * nat (sz div 8)" using sz by auto
  have bc: "bc = [byte_of (unop_CODE c), byte_of (7 OR m)] @ le_bytes (nat (sz div 8)) v"
    using mk UnOp_make_Imm [OF m v] by (simp add: v_def)
  have d: "drop 2 bc = le_bytes (nat (sz div 8)) v" by (simp add: bc)
  have v8: "v < 2 ^ (8 * nat (sz div 8))" using v(2) eq by simp
  have "le_value (drop 2 bc) = v"
    using le_value_le_bytes [OF v(1) v8] d by simp
  moreover have "(le_signed (drop 2 bc) + int off) mod 2 ^ nat sz = R mod 2 ^ nat sz"
  proof -
    have "(le_signed (drop 2 bc) + int off) mod 2 ^ (8 * nat (sz div 8))
            = (v + int off) mod 2 ^ (8 * nat (sz div 8))"
      using le_signed_mod [OF v(1) v8] d by simp
    then have "(le_signed (drop 2 bc) + int off) mod 2 ^ nat sz = (v + int off) mod 2 ^ nat sz"
      using eq by simp
    also have "\<dots> = (R - int off + int off) mod 2 ^ nat sz"
      unfolding v_def by (rule mod_add_left_eq)
    finally show ?thesis by simp
  qed
  moreover have "signed2unsigned (R - int off) sz = Some v"
    using signed2unsigned_valid [OF sz] by (simp add: v_def)
  ultimately show ?thesis using off i unfolding v_def by blast
qed

text \<open>
  C2, as the claim states it, fails. In \<^verbatim>\<open>y = ref(B); push(Q, r1); jmp(B, ref(A)); tag(A);
  tag(B)\<close> the \<^verbatim>\<open>jmp\<close> is patched with 0 for the resolved offset 6 and the offset 6 after it;
  rewriting the stray use site of \<^verbatim>\<open>B\<close> then lengthens the \<^verbatim>\<open>push\<close>, and in the assembled
  stream the offset after the \<^verbatim>\<open>jmp\<close> is 13. In \<^verbatim>\<open>y = ref(L1); jmp(B, ref(L2)); tag(L1);
  mov(B, r0, r1); tag(L2)\<close> the \<^verbatim>\<open>jmp\<close> is a use site of both labels and ends with the
  displacement 4 to \<^verbatim>\<open>L2\<close>, which from the offset 3 after it does not lead to the resolved
  offset 3 of \<^verbatim>\<open>L1\<close>.
\<close>

theorem stray_ref_breaks_round_trip:
  "(\<exists>s out t. stray_ref_before_jmp_program = Inr s \<and> assemble s = Inr (out, t) \<and>
      labels t = [0, 1] \<and> use_sites (heap t 0) = [1] \<and> resolved (heap t 0) = Some 6 \<and>
      inses t ! 1 = UnOp Jmp (Imm (Some 0)) 8 (Some [0x13, 0x17, 0]) \<and>
      sum_lens (inses t) 2 = Inr 13) \<and>
   (le_signed [0] + 13) mod 2 ^ 8 \<noteq> (6 :: int) mod 2 ^ 8 \<and>
   signed2unsigned (6 - 13) 8 \<noteq> Some 0 \<and>
   (\<exists>s out t. shared_use_site_program = Inr s \<and> assemble s = Inr (out, t) \<and>
      labels t = [0, 1] \<and> use_sites (heap t 0) = [0] \<and> resolved (heap t 0) = Some 3 \<and>
      inses t ! 0 = UnOp Jmp (Imm (Some 4)) 8 (Some [0x13, 0x17, 4]) \<and>
      sum_lens (inses t) 1 = Inr 3) \<and>
   (le_signed [4] + 3) mod 2 ^ 8 \<noteq> (3 :: int) mod 2 ^ 8 \<and>
   signed2unsigned (3 - 3) 8 \<noteq> Some 4"
proof -
  have p1: "\<exists>s out t. stray_ref_before_jmp_program = Inr s \<and> assemble s = Inr (out, t) \<and>
      labels t = [0, 1] \<and> use_sites (heap t 0) = [1] \<and> resolved (heap t 0) = Some 6 \<and>
      inses t ! 1 = UnOp Jmp (Imm (Some 0)) 8 (Some [0x13, 0x17, 0]) \<and>
      sum_lens (inses t) 2 = Inr 13"
    by (simp add: stray_ref_before_jmp_program_def api_defs enc_defs asm_defs eval_nat_numeral)
  have p2: "\<exists>s out t. shared_use_site_program = Inr s \<and> assemble s = Inr (out, t) \<and>
      labels t = [0, 1] \<and> use_sites (heap t 0) = [0] \<and> resolved (heap t 0) = Some 3 \<and>
      inses t ! 0 = UnOp Jmp (Imm (Some 4)) 8 (Some [0x13, 0x17, 4]) \<and>
      sum_lens (inses t) 1 = Inr 3"
    by (simp add: shared_use_site_program_def api_defs enc_defs asm_defs eval_nat_numeral)
  have a1: "(le_signed [0] + 13) mod 2 ^ 8 \<noteq> (6 :: int) mod 2 ^ 8"
    and a2: "(le_signed [4] + 3) mod 2 ^ 8 \<noteq> (3 :: int) mod 2 ^ 8"
    by (simp_all add: le_signed_def le_value_def)
  have b1: "signed2unsigned (6 - 13) 8 \<noteq> Some 0"
    and b2: "signed2unsigned (3 - 3) 8 \<noteq> Some 4"
    by (simp_all add: signed2unsigned_def)
  show ?thesis by (intro conjI p1 p2 a1 a2 b1 b2)
qed

text \<open>
  C2, amended. In every session in which each recorded use site of each label of the table
  is the index of a unary instruction that holds a label reference, and no instruction is a
  use site of two different labels, the rewrite pass cannot fail, and after it, for every
  label of the table with resolved offset \<open>R\<close> and every use site \<open>u\<close> of it: the instruction
  at \<open>u\<close> holds the immediate \<open>signed2unsigned (R - after)\<close> at its own width, where \<open>after\<close>
  is the byte offset just after that instruction; its operand bytes hold that value
  little-endian; and read as a signed number and added to \<open>after\<close> they give \<open>R\<close> modulo
  \<open>2 ^ width\<close>.
\<close>

theorem rewrite_round_trip:
  assumes "phase1 s = Inr s1" and "phase2 s1 = Inr s2"
    and "use_sites_ok s" and "use_sites_disjoint s"
  shows "\<exists>s3. phase3 s2 = Inr s3 \<and>
           (\<forall>a \<in> set (labels s). \<forall>u \<in> set (use_sites (heap s a)).
              \<exists>R after c sz bc v.
                resolved (heap s3 a) = Some R \<and>
                sum_lens (inses s3) (Suc u) = Inr after \<and>
                inses s3 ! u = UnOp c (Imm (Some v)) sz (Some bc) \<and>
                signed2unsigned (R - int after) sz = Some v \<and>
                le_value (drop 2 bc) = v \<and>
                (le_signed (drop 2 bc) + int after) mod 2 ^ nat sz = R mod 2 ^ nat sz)"
proof -
  note f = phases_1_2 [OF assms(1,2,3)]
  have dis: "\<forall>a \<in> set (labels s2). \<forall>b \<in> set (labels s2).
               a \<noteq> b \<longrightarrow> set (use_sites (heap s2 a)) \<inter> set (use_sites (heap s2 b)) = {}"
    using assms(4) f(2) f(7) by (simp add: use_sites_disjoint_def)
  obtain is3 where r: "rewrite_all (heap s2) (labels s2) (inses s2) = Inr is3"
    and pat: "\<forall>a \<in> set (labels s2). \<forall>u \<in> set (use_sites (heap s2 a)). \<forall>R.
                resolved (heap s2 a) = Some R \<longrightarrow> patched R is3 u"
    using rewrite_all_sites [OF f(4) f(5) f(6)] dis by blast
  define s3 where "s3 = s2\<lparr>inses := is3\<rparr>"
  have p3: "phase3 s2 = Inr s3" using r by (simp add: phase3_def s3_def)
  have "\<exists>R after c sz bc v.
          resolved (heap s3 a) = Some R \<and>
          sum_lens (inses s3) (Suc u) = Inr after \<and>
          inses s3 ! u = UnOp c (Imm (Some v)) sz (Some bc) \<and>
          signed2unsigned (R - int after) sz = Some v \<and>
          le_value (drop 2 bc) = v \<and>
          (le_signed (drop 2 bc) + int after) mod 2 ^ nat sz = R mod 2 ^ nat sz"
    if a: "a \<in> set (labels s)" and u: "u \<in> set (use_sites (heap s a))" for a u
  proof -
    obtain R where R: "resolved (heap s2 a) = Some R" using f(6) f(2) a by auto
    have "patched R is3 u" using pat a u R f(2) f(7) by simp
    from patched_round_trip [OF this] show ?thesis using R by (simp add: s3_def)
  qed
  then show ?thesis using p3 by blast
qed

theorem rewrite_round_trip_witness:
  "\<exists>s. backward_jump_program = Inr s \<and> use_sites_ok s \<and> use_sites_disjoint s \<and>
     (\<exists>s1 s2 s3. phase1 s = Inr s1 \<and> phase2 s1 = Inr s2 \<and> phase3 s2 = Inr s3 \<and>
        (\<exists>c bc. resolved (heap s3 0) = Some 0 \<and>
           sum_lens (inses s3) 2 = Inr 7 \<and>
           inses s3 ! 1 = UnOp c (Imm (Some 249)) 8 (Some bc) \<and>
           signed2unsigned (0 - 7) 8 = Some 249 \<and>
           le_value (drop 2 bc) = 249 \<and>
           (le_signed (drop 2 bc) + 7) mod 2 ^ 8 = 0))"
proof -
  have "\<exists>s. backward_jump_program = Inr s \<and> use_sites_ok s \<and> use_sites_disjoint s \<and>
          labels s = [0] \<and> use_sites (heap s 0) = [1] \<and>
          (\<exists>s1. phase1 s = Inr s1 \<and>
             (\<exists>s2. phase2 s1 = Inr s2 \<and>
                (\<exists>s3. phase3 s2 = Inr s3 \<and>
                   inses s3 ! 1 = UnOp Jl (Imm (Some 249)) 8 (Some [0x18, 0x17, 249]) \<and>
                   resolved (heap s3 0) = Some 0 \<and> sum_lens (inses s3) 2 = Inr 7)))"
    by (simp add: backward_jump_program_def use_sites_ok_def use_sites_disjoint_def api_defs
        enc_defs asm_defs eval_nat_numeral)
  then obtain s s1 s2 s3 where p: "backward_jump_program = Inr s"
    and ok: "use_sites_ok s" and dis: "use_sites_disjoint s"
    and l: "labels s = [0]" "use_sites (heap s 0) = [1]"
    and s1: "phase1 s = Inr s1" and s2: "phase2 s1 = Inr s2" and s3: "phase3 s2 = Inr s3"
    and s3v: "inses s3 ! 1 = UnOp Jl (Imm (Some 249)) 8 (Some [0x18, 0x17, 249])"
      "resolved (heap s3 0) = Some 0" "sum_lens (inses s3) 2 = Inr 7"
    by blast
  have rt: "\<forall>a \<in> set (labels s). \<forall>u \<in> set (use_sites (heap s a)).
              \<exists>R after c sz bc v.
                resolved (heap s3 a) = Some R \<and>
                sum_lens (inses s3) (Suc u) = Inr after \<and>
                inses s3 ! u = UnOp c (Imm (Some v)) sz (Some bc) \<and>
                signed2unsigned (R - int after) sz = Some v \<and>
                le_value (drop 2 bc) = v \<and>
                (le_signed (drop 2 bc) + int after) mod 2 ^ nat sz = R mod 2 ^ nat sz"
    using rewrite_round_trip [OF s1 s2 ok dis] s3 by auto
  from rt l obtain R after c sz bc v where
    "resolved (heap s3 0) = Some R" "sum_lens (inses s3) (Suc 1) = Inr after"
    "inses s3 ! 1 = UnOp c (Imm (Some v)) sz (Some bc)"
    "signed2unsigned (R - int after) sz = Some v" "le_value (drop 2 bc) = v"
    "(le_signed (drop 2 bc) + int after) mod 2 ^ nat sz = R mod 2 ^ nat sz"
    by auto
  then have fin: "\<exists>c bc. resolved (heap s3 0) = Some 0 \<and>
         sum_lens (inses s3) 2 = Inr 7 \<and>
         inses s3 ! 1 = UnOp c (Imm (Some 249)) 8 (Some bc) \<and>
         signed2unsigned (0 - 7) 8 = Some 249 \<and>
         le_value (drop 2 bc) = 249 \<and>
         (le_signed (drop 2 bc) + 7) mod 2 ^ 8 = 0"
    using s3v by (auto simp: numeral_2_eq_2)
  show ?thesis
    by (rule exI [of _ s], intro conjI, rule p, rule ok, rule dis,
        rule exI [of _ s1], rule exI [of _ s2], rule exI [of _ s3], intro conjI,
        rule s1, rule s2, rule s3, rule fin)
qed

section \<open>Assembling twice\<close>

subsection \<open>Two sessions that recorded the same\<close>

lemma ins_make_clear: "ins_make n (clear_ins i) (CODE (clear_ins i)) = ins_make n i (CODE i)"
  by (cases i) simp_all

lemma make_all_clear: "make_all n (map clear_ins is) = make_all n is"
  by (induction "is") (auto simp: ins_make_clear split: sum.splits)

lemma make_all_recorded:
  assumes "map clear_ins is = map clear_ins is'"
  shows "make_all n is = make_all n is'"
  using make_all_clear [of n "is"] make_all_clear [of n is'] assms by simp

lemma Label_resolve_recorded:
  assumes "l1\<lparr>resolved := None\<rparr> = l2\<lparr>resolved := None\<rparr>"
  shows "Label_resolve is l1 = Label_resolve is l2"
proof -
  have "def_site l1 = def_site (l1\<lparr>resolved := None\<rparr>)" by simp
  also have "\<dots> = def_site l2" using assms by simp
  finally have d: "def_site l1 = def_site l2" .
  have "l1\<lparr>resolved := x\<rparr> = l2\<lparr>resolved := x\<rparr>" for x
  proof -
    have "l1\<lparr>resolved := x\<rparr> = (l1\<lparr>resolved := None\<rparr>)\<lparr>resolved := x\<rparr>" by simp
    also have "\<dots> = (l2\<lparr>resolved := None\<rparr>)\<lparr>resolved := x\<rparr>" using assms by simp
    finally show ?thesis by simp
  qed
  then show ?thesis using d by (simp add: Label_resolve_def split: option.splits sum.splits)
qed

lemma resolve_all_recorded:
  assumes "\<forall>a. (h1 a)\<lparr>resolved := None\<rparr> = (h2 a)\<lparr>resolved := None\<rparr>"
    and "\<forall>a \<in> S. h1 a = h2 a"
  shows "(\<exists>e. resolve_all is as h1 = Inl e \<and> resolve_all is as h2 = Inl e) \<or>
         (\<exists>h1' h2'. resolve_all is as h1 = Inr h1' \<and> resolve_all is as h2 = Inr h2' \<and>
            (\<forall>a \<in> S \<union> set as. h1' a = h2' a))"
  using assms
proof (induction as arbitrary: h1 h2 S)
  case Nil
  then show ?case by simp
next
  case (Cons b as)
  have eq: "Label_resolve is (h1 b) = Label_resolve is (h2 b)"
    using Label_resolve_recorded Cons.prems(1) by blast
  show ?case
  proof (cases "Label_resolve is (h1 b)")
    case (Inl e)
    then show ?thesis using eq by simp
  next
    case (Inr l')
    have 1: "\<forall>a. ((h1(b := l')) a)\<lparr>resolved := None\<rparr> = ((h2(b := l')) a)\<lparr>resolved := None\<rparr>"
      using Cons.prems(1) by simp
    have 2: "\<forall>a \<in> insert b S. (h1(b := l')) a = (h2(b := l')) a"
      using Cons.prems(2) by simp
    have IH: "(\<exists>e. resolve_all is as (h1(b := l')) = Inl e \<and>
                   resolve_all is as (h2(b := l')) = Inl e) \<or>
              (\<exists>h1' h2'. resolve_all is as (h1(b := l')) = Inr h1' \<and>
                 resolve_all is as (h2(b := l')) = Inr h2' \<and>
                 (\<forall>a \<in> insert b S \<union> set as. h1' a = h2' a))"
      by (rule Cons.IH [OF 1 2])
    have "insert b S \<union> set as = S \<union> set (b # as)" by auto
    then show ?thesis
      using IH Inr eq by simp
  qed
qed

text \<open>
  The buffer that \<^verbatim>\<open>assemble()\<close> returns, or the error it raises, depends only on what the
  construction calls recorded in the session: not on the bytecode the instructions carry
  nor on the offsets the labels were resolved to before.
\<close>

lemma assemble_recorded:
  assumes "recorded s = recorded t"
  shows "map_sum id fst (assemble s) = map_sum id fst (assemble t)"
proof -
  have i: "map clear_ins (inses s) = map clear_ins (inses t)"
    and l: "labels s = labels t"
    and h: "(\<lambda>a. (heap s a)\<lparr>resolved := None\<rparr>) = (\<lambda>a. (heap t a)\<lparr>resolved := None\<rparr>)"
    using assms by (auto simp: recorded_def asm_state.ext_inject
        dest: arg_cong [where f = inses] arg_cong [where f = labels] arg_cong [where f = heap])
  have h': "\<forall>a. (heap s a)\<lparr>resolved := None\<rparr> = (heap t a)\<lparr>resolved := None\<rparr>"
    using h by (metis (no_types))
  have n: "length (inses s) = length (inses t)" using i by (metis length_map)
  have m: "make_all (length (inses s)) (inses s) = make_all (length (inses t)) (inses t)"
    using make_all_recorded [OF i] n by simp
  show ?thesis
  proof (cases "make_all (length (inses t)) (inses t)")
    case (Inl e)
    then show ?thesis using m by (simp add: assemble_def phase1_def)
  next
    case (Inr is1)
    have r: "(\<exists>e. resolve_all is1 (labels t) (heap s) = Inl e \<and>
                 resolve_all is1 (labels t) (heap t) = Inl e) \<or>
         (\<exists>h1' h2'. resolve_all is1 (labels t) (heap s) = Inr h1' \<and>
            resolve_all is1 (labels t) (heap t) = Inr h2' \<and>
            (\<forall>a \<in> {} \<union> set (labels t). h1' a = h2' a))"
      by (rule resolve_all_recorded [OF h']) simp
    then show ?thesis
    proof
      assume "\<exists>e. resolve_all is1 (labels t) (heap s) = Inl e \<and>
                 resolve_all is1 (labels t) (heap t) = Inl e"
      then show ?thesis using m Inr l by (auto simp: assemble_def phase1_def phase2_def)
    next
      assume "\<exists>h1' h2'. resolve_all is1 (labels t) (heap s) = Inr h1' \<and>
            resolve_all is1 (labels t) (heap t) = Inr h2' \<and>
            (\<forall>a \<in> {} \<union> set (labels t). h1' a = h2' a)"
      then obtain h1' h2' where r1: "resolve_all is1 (labels t) (heap s) = Inr h1'"
        and r2: "resolve_all is1 (labels t) (heap t) = Inr h2'"
        and agree: "\<forall>a \<in> set (labels t). h1' a = h2' a" by auto
      have "rewrite_all h1' (labels t) is1 = rewrite_all h2' (labels t) is1"
        using agree by (intro rewrite_all_cong) simp
      then show ?thesis
        using m Inr l r1 r2
        by (auto simp: assemble_def phase1_def phase2_def phase3_def split: sum.splits)
    qed
  qed
qed

text \<open>The encode pass and the resolve pass leave what was recorded as it is.\<close>

lemma ins_make_recorded: "ins_make n i code = Inr i' \<Longrightarrow> clear_ins i' = clear_ins i"
  by (cases i) (auto split: sum.splits)

lemma make_all_keeps_recorded: "make_all n is = Inr is' \<Longrightarrow> map clear_ins is' = map clear_ins is"
proof (induction "is" arbitrary: is')
  case Nil
  then show ?case by simp
next
  case (Cons i "is")
  then obtain i' is1 where i': "ins_make n i (CODE i) = Inr i'"
    and is1: "make_all n is = Inr is1" and eq: "is' = i' # is1"
    by (auto split: sum.splits)
  show ?case using ins_make_recorded [OF i'] Cons.IH [OF is1] eq by simp
qed

lemma resolve_all_keeps_recorded:
  "resolve_all is as h = Inr h' \<Longrightarrow>
   \<forall>a. (h' a)\<lparr>resolved := None\<rparr> = (h a)\<lparr>resolved := None\<rparr>"
proof (induction as arbitrary: h)
  case Nil
  then show ?case by simp
next
  case (Cons b as)
  then obtain l' where l': "Label_resolve is (h b) = Inr l'"
    and rest: "resolve_all is as (h(b := l')) = Inr h'"
    by (auto split: sum.splits)
  have l: "l'\<lparr>resolved := None\<rparr> = (h b)\<lparr>resolved := None\<rparr>"
    using l' by (auto simp: Label_resolve_def split: option.splits sum.splits)
  have IH: "\<forall>a. (h' a)\<lparr>resolved := None\<rparr> = ((h(b := l')) a)\<lparr>resolved := None\<rparr>"
    by (rule Cons.IH [OF rest])
  show ?case
  proof
    fix a show "(h' a)\<lparr>resolved := None\<rparr> = (h a)\<lparr>resolved := None\<rparr>"
      using IH [rule_format, of a] l by (cases "a = b") simp_all
  qed
qed

lemma phases_keep_recorded:
  assumes "phase1 s = Inr s1" and "phase2 s1 = Inr s2"
  shows "recorded s2 = recorded s"
proof -
  obtain is1 where m: "make_all (length (inses s)) (inses s) = Inr is1"
    and s1: "s1 = s\<lparr>inses := is1\<rparr>"
    using assms(1) by (auto simp: phase1_def split: sum.splits)
  obtain h2 where r: "resolve_all (inses s1) (labels s1) (heap s1) = Inr h2"
    and s2: "s2 = s1\<lparr>heap := h2\<rparr>"
    using assms(2) by (auto simp: phase2_def split: sum.splits)
  have "map clear_ins is1 = map clear_ins (inses s)" by (rule make_all_keeps_recorded [OF m])
  moreover have "(\<lambda>a. (h2 a)\<lparr>resolved := None\<rparr>) = (\<lambda>a. (heap s a)\<lparr>resolved := None\<rparr>)"
    using resolve_all_keeps_recorded [OF r] s1 by auto
  ultimately show ?thesis using s1 s2 by (simp add: recorded_def)
qed

subsection \<open>The same session, assembled again\<close>

lemma ins_make_idem:
  "ins_make n i (CODE i) = Inr i' \<Longrightarrow> ins_make n i' (CODE i') = Inr i'"
  by (cases i) (auto split: sum.splits)

lemma site_ok_made: "site_ok n i \<Longrightarrow> ins_make n i (CODE i) = Inr i"
  by (auto simp: site_ok_def)

lemma make_all_fixed:
  "\<forall>i \<in> set is. ins_make n i (CODE i) = Inr i \<Longrightarrow> make_all n is = Inr is"
  by (induction "is") simp_all

lemma resolve_all_fixed:
  assumes "\<forall>a \<in> set as. Label_resolve is (h a) = Inr (h a)"
  shows "resolve_all is as h = Inr h"
  using assms
proof (induction as)
  case Nil
  then show ?case by simp
next
  case (Cons a as)
  have "h(a := h a) = h" by simp
  then show ?case using Cons by simp
qed

lemma Label_resolve_cong:
  "map bytecode_len is' = map bytecode_len is \<Longrightarrow> Label_resolve is' l = Label_resolve is l"
  by (simp add: Label_resolve_def sum_lens_cong [of is' "is"] split: option.splits)

lemma Label_resolve_again:
  "Label_resolve is l = Inr l' \<Longrightarrow> Label_resolve is l' = Inr l'"
  by (auto simp: Label_resolve_def split: option.splits sum.splits)

lemma resolve_all_resolved:
  "resolve_all is as h = Inr h' \<Longrightarrow>
   \<forall>a. (a \<in> set as \<or> Label_resolve is (h a) = Inr (h a)) \<longrightarrow> Label_resolve is (h' a) = Inr (h' a)"
proof (induction as arbitrary: h)
  case Nil
  then show ?case by simp
next
  case (Cons b as)
  then obtain l' where l': "Label_resolve is (h b) = Inr l'"
    and rest: "resolve_all is as (h(b := l')) = Inr h'"
    by (auto split: sum.splits)
  have IH: "\<forall>a. (a \<in> set as \<or> Label_resolve is ((h(b := l')) a) = Inr ((h(b := l')) a)) \<longrightarrow>
              Label_resolve is (h' a) = Inr (h' a)"
    by (rule Cons.IH [OF rest])
  show ?case
  proof (intro allI impI)
    fix a assume a: "a \<in> set (b # as) \<or> Label_resolve is (h a) = Inr (h a)"
    show "Label_resolve is (h' a) = Inr (h' a)"
    proof (cases "a = b")
      case True
      then show ?thesis using IH Label_resolve_again [OF l'] by simp
    next
      case False
      then have "(h(b := l')) a = h a" by simp
      then show ?thesis using IH [rule_format, of a] a False by auto
    qed
  qed
qed

lemma agree_length: "agree D is is' \<Longrightarrow> length is' = length is"
  unfolding agree_def by (metis length_map)

lemma agree_empty: "agree {} is is' \<Longrightarrow> is' = is"
proof -
  assume a: "agree {} is is'"
  have "length is' = length is" by (rule agree_length [OF a])
  then show ?thesis using a by (auto simp: agree_def intro: nth_equalityI)
qed

lemma rewrite_use_agree:
  assumes ag: "agree D is is'"
    and lens: "\<forall>i \<in> set is. has_len i"
    and u: "u < length is"
    and ok: "site_ok (length is) (is ! u)"
    and ok': "site_ok (length is) (is' ! u)"
  shows "\<exists>js js'. rewrite_use (length is) (Some R) u is = Inr js \<and>
           rewrite_use (length is) (Some R) u is' = Inr js' \<and>
           agree (D - {u}) js js' \<and> map layout js = map layout is \<and>
           (\<forall>k < length is. site_ok (length is) (is ! k) \<longrightarrow> site_ok (length is) (js ! k)) \<and>
           (\<forall>k < length is. site_ok (length is) (is' ! k) \<longrightarrow> site_ok (length is) (js' ! k))"
proof -
  let ?n = "length is"
  have lay: "map layout is' = map layout is" using ag by (simp add: agree_def)
  have n': "length is' = ?n" by (rule agree_length [OF ag])
  have lens': "\<forall>i \<in> set is'. has_len i" by (rule layout_has_len [OF lay lens])
  have u': "u < length is'" using u n' by simp
  have ok'': "site_ok (length is') (is' ! u)" using ok' n' by simp
  obtain off c d sz bc bc1 where off: "sum_lens is (Suc u) = Inr off"
    and i: "is ! u = UnOp c d sz (Some bc)"
    and rw: "rewrite_use ?n (Some R) u is =
               Inr (is[u := UnOp c (Imm (Some ((R - int off) mod 2 ^ nat sz))) sz (Some bc1)])"
    and so: "site_ok ?n (UnOp c (Imm (Some ((R - int off) mod 2 ^ nat sz))) sz (Some bc1))"
    and len: "length bc1 = length bc" and hd: "take 2 bc1 = take 2 bc"
    using rewrite_use_site [OF lens u ok, of R] by blast
  obtain off' c' d' sz' bc' bc1' where off': "sum_lens is' (Suc u) = Inr off'"
    and i': "is' ! u = UnOp c' d' sz' (Some bc')"
    and rw': "rewrite_use (length is') (Some R) u is' =
               Inr (is'[u := UnOp c' (Imm (Some ((R - int off') mod 2 ^ nat sz'))) sz' (Some bc1')])"
    and so': "site_ok (length is')
                (UnOp c' (Imm (Some ((R - int off') mod 2 ^ nat sz'))) sz' (Some bc1'))"
    using rewrite_use_site [OF lens' u' ok'', of R] by blast
  have "sum_lens is' (Suc u) = sum_lens is (Suc u)"
    by (rule sum_lens_cong [OF layout_lens [OF lay]])
  then have o: "off' = off" using off off' by simp
  have "layout (is' ! u) = layout (is ! u)"
    using lay u n' by (metis nth_map)
  then have cs: "c' = c" "sz' = sz"
    using i i' by (simp_all add: layout_def)
  define X where "X = UnOp c (Imm (Some ((R - int off) mod 2 ^ nat sz))) sz (Some bc1)"
  have "bc1' = bc1"
    using so so' o cs n' by (simp add: site_ok_def)
  then have rw'': "rewrite_use ?n (Some R) u is' = Inr (is'[u := X])"
    using rw' o cs n' by (simp add: X_def)
  have rwX: "rewrite_use ?n (Some R) u is = Inr (is[u := X])"
    using rw by (simp add: X_def)
  have layX: "layout X = layout (is ! u)"
    using i len hd by (simp add: X_def layout_def bytecode_len_def head2_def)
  have lay1: "map layout (is[u := X]) = map layout is"
    by (rule layout_update [OF u layX])
  have layX': "layout X = layout (is' ! u)"
    using layX lay u n' by (metis nth_map)
  have lay1': "map layout (is'[u := X]) = map layout is'"
    by (rule layout_update [OF u' layX'])
  have ag1: "agree (D - {u}) (is[u := X]) (is'[u := X])"
    unfolding agree_def
  proof (intro conjI allI impI)
    show "map layout (is'[u := X]) = map layout (is[u := X])"
      using lay1 lay1' lay by simp
  next
    fix k assume k: "k < length (is[u := X])" and nd: "k \<notin> D - {u}"
    show "is'[u := X] ! k = is[u := X] ! k"
    proof (cases "k = u")
      case True
      then show ?thesis using u u' by simp
    next
      case False
      then have "is' ! k = is ! k" using ag k nd by (simp add: agree_def)
      then show ?thesis using False by simp
    qed
  qed
  have soX: "site_ok ?n X" using so by (simp add: X_def)
  have keep: "\<forall>k < ?n. site_ok ?n (is ! k) \<longrightarrow> site_ok ?n (is[u := X] ! k)"
  proof (intro allI impI)
    fix k assume "k < ?n" and "site_ok ?n (is ! k)"
    then show "site_ok ?n (is[u := X] ! k)" using soX by (cases "k = u") simp_all
  qed
  have keep': "\<forall>k < ?n. site_ok ?n (is' ! k) \<longrightarrow> site_ok ?n (is'[u := X] ! k)"
  proof (intro allI impI)
    fix k assume "k < ?n" and "site_ok ?n (is' ! k)"
    then show "site_ok ?n (is'[u := X] ! k)" using soX n' by (cases "k = u") simp_all
  qed
  show ?thesis using rwX rw'' ag1 lay1 keep keep' by blast
qed

lemma rewrite_uses_agree:
  assumes "agree D is is'"
    and "\<forall>i \<in> set is. has_len i"
    and "\<forall>u \<in> set us. u < length is \<and> site_ok (length is) (is ! u) \<and>
           site_ok (length is) (is' ! u)"
  shows "\<exists>js js'. rewrite_uses (length is) (Some R) us is = Inr js \<and>
           rewrite_uses (length is) (Some R) us is' = Inr js' \<and>
           agree (D - set us) js js' \<and> map layout js = map layout is \<and>
           (\<forall>k < length is. site_ok (length is) (is ! k) \<longrightarrow> site_ok (length is) (js ! k)) \<and>
           (\<forall>k < length is. site_ok (length is) (is' ! k) \<longrightarrow> site_ok (length is) (js' ! k))"
  using assms
proof (induction us arbitrary: D "is" is')
  case Nil
  then show ?case by simp
next
  case (Cons u us)
  let ?n = "length is"
  have u: "u < ?n" "site_ok ?n (is ! u)" "site_ok ?n (is' ! u)"
    using Cons.prems(3) by simp_all
  obtain is1 is1' where r: "rewrite_use ?n (Some R) u is = Inr is1"
    and r': "rewrite_use ?n (Some R) u is' = Inr is1'"
    and ag1: "agree (D - {u}) is1 is1'" and lay1: "map layout is1 = map layout is"
    and keep: "\<forall>k < ?n. site_ok ?n (is ! k) \<longrightarrow> site_ok ?n (is1 ! k)"
    and keep': "\<forall>k < ?n. site_ok ?n (is' ! k) \<longrightarrow> site_ok ?n (is1' ! k)"
    using rewrite_use_agree [OF Cons.prems(1,2) u, of R] by blast
  have n1: "length is1 = ?n" using lay1 by (metis length_map)
  have lens1: "\<forall>i \<in> set is1. has_len i" by (rule layout_has_len [OF lay1 Cons.prems(2)])
  have sites1: "\<forall>v \<in> set us. v < length is1 \<and> site_ok (length is1) (is1 ! v) \<and>
                  site_ok (length is1) (is1' ! v)"
    using Cons.prems(3) keep keep' n1 by simp
  have IH: "\<exists>js js'. rewrite_uses (length is1) (Some R) us is1 = Inr js \<and>
           rewrite_uses (length is1) (Some R) us is1' = Inr js' \<and>
           agree (D - {u} - set us) js js' \<and> map layout js = map layout is1 \<and>
           (\<forall>k < length is1. site_ok (length is1) (is1 ! k) \<longrightarrow> site_ok (length is1) (js ! k)) \<and>
           (\<forall>k < length is1. site_ok (length is1) (is1' ! k) \<longrightarrow> site_ok (length is1) (js' ! k))"
    by (rule Cons.IH [OF ag1 lens1 sites1])
  then obtain js js' where j: "rewrite_uses ?n (Some R) us is1 = Inr js"
    and j': "rewrite_uses ?n (Some R) us is1' = Inr js'"
    and ag: "agree (D - {u} - set us) js js'" and lay: "map layout js = map layout is1"
    and k1: "\<forall>k < ?n. site_ok ?n (is1 ! k) \<longrightarrow> site_ok ?n (js ! k)"
    and k1': "\<forall>k < ?n. site_ok ?n (is1' ! k) \<longrightarrow> site_ok ?n (js' ! k)"
    using n1 by auto
  have "D - {u} - set us = D - set (u # us)" by auto
  then have "agree (D - set (u # us)) js js'" using ag by simp
  moreover have "rewrite_uses ?n (Some R) (u # us) is = Inr js" using r j by simp
  moreover have "rewrite_uses ?n (Some R) (u # us) is' = Inr js'" using r' j' by simp
  moreover have "map layout js = map layout is" using lay lay1 by simp
  moreover have "\<forall>k < ?n. site_ok ?n (is ! k) \<longrightarrow> site_ok ?n (js ! k)"
    using keep k1 by simp
  moreover have "\<forall>k < ?n. site_ok ?n (is' ! k) \<longrightarrow> site_ok ?n (js' ! k)"
    using keep' k1' by simp
  ultimately show ?case by blast
qed

lemma rewrite_all_agree:
  assumes "agree D is is'"
    and "\<forall>i \<in> set is. has_len i"
    and "\<forall>a \<in> set as. \<forall>u \<in> set (use_sites (h a)).
           u < length is \<and> site_ok (length is) (is ! u) \<and> site_ok (length is) (is' ! u)"
    and "\<forall>a \<in> set as. \<exists>R. resolved (h a) = Some R"
  shows "\<exists>js js'. rewrite_all h as is = Inr js \<and> rewrite_all h as is' = Inr js' \<and>
           agree (D - (\<Union>a \<in> set as. set (use_sites (h a)))) js js'"
  using assms
proof (induction as arbitrary: D "is" is')
  case Nil
  then show ?case by simp
next
  case (Cons a as)
  let ?n = "length is"
  obtain R where R: "resolved (h a) = Some R" using Cons.prems(4) by auto
  have sa: "\<forall>u \<in> set (use_sites (h a)). u < ?n \<and> site_ok ?n (is ! u) \<and> site_ok ?n (is' ! u)"
    using Cons.prems(3) by simp
  obtain is1 is1' where r: "rewrite_uses ?n (Some R) (use_sites (h a)) is = Inr is1"
    and r': "rewrite_uses ?n (Some R) (use_sites (h a)) is' = Inr is1'"
    and ag1: "agree (D - set (use_sites (h a))) is1 is1'"
    and lay1: "map layout is1 = map layout is"
    and keep: "\<forall>k < ?n. site_ok ?n (is ! k) \<longrightarrow> site_ok ?n (is1 ! k)"
    and keep': "\<forall>k < ?n. site_ok ?n (is' ! k) \<longrightarrow> site_ok ?n (is1' ! k)"
    using rewrite_uses_agree [OF Cons.prems(1,2) sa, of R] by blast
  have n1: "length is1 = ?n" using lay1 by (metis length_map)
  have n': "length is' = ?n" by (rule agree_length [OF Cons.prems(1)])
  have lens1: "\<forall>i \<in> set is1. has_len i" by (rule layout_has_len [OF lay1 Cons.prems(2)])
  have sites1: "\<forall>b \<in> set as. \<forall>u \<in> set (use_sites (h b)).
                  u < length is1 \<and> site_ok (length is1) (is1 ! u) \<and>
                  site_ok (length is1) (is1' ! u)"
    using Cons.prems(3) keep keep' n1 by simp
  have res1: "\<forall>b \<in> set as. \<exists>R. resolved (h b) = Some R" using Cons.prems(4) by simp
  have IH: "\<exists>js js'. rewrite_all h as is1 = Inr js \<and> rewrite_all h as is1' = Inr js' \<and>
           agree (D - set (use_sites (h a)) - (\<Union>b \<in> set as. set (use_sites (h b)))) js js'"
    by (rule Cons.IH [OF ag1 lens1 sites1 res1])
  then obtain js js' where j: "rewrite_all h as is1 = Inr js"
    and j': "rewrite_all h as is1' = Inr js'"
    and ag: "agree (D - set (use_sites (h a)) - (\<Union>b \<in> set as. set (use_sites (h b)))) js js'"
    by blast
  have "D - set (use_sites (h a)) - (\<Union>b \<in> set as. set (use_sites (h b)))
          = D - (\<Union>b \<in> set (a # as). set (use_sites (h b)))" by auto
  then have "agree (D - (\<Union>b \<in> set (a # as). set (use_sites (h b)))) js js'"
    using ag by simp
  moreover have "rewrite_all h (a # as) is = Inr js"
    using r j R by (simp add: Label_rewrite_def)
  moreover have "rewrite_all h (a # as) is' = Inr js'"
    using r' j' R n' by (simp add: Label_rewrite_def)
  ultimately show ?case by blast
qed

text \<open>
  A second \<^verbatim>\<open>assemble()\<close> in the same session starts from the patched operands the first one
  left. When every recorded use site holds a label reference, it returns the buffer of the
  first and leaves the session as the first left it.
\<close>

lemma assemble_again:
  assumes a: "assemble s = Inr (out, t)" and ok: "use_sites_ok s"
  shows "assemble t = Inr (out, t)"
proof -
  obtain s1 s2 where p1: "phase1 s = Inr s1" and p2: "phase2 s1 = Inr s2"
    and p3: "phase3 s2 = Inr t" and e: "emit_all (inses t) = Inr out"
    using a by (auto simp: assemble_def split: sum.splits)
  note f = phases_1_2 [OF p1 p2 ok]
  let ?n = "length (inses s2)"
  let ?D = "\<Union>a \<in> set (labels s2). set (use_sites (heap s2 a))"
  obtain is3 where r: "rewrite_all (heap s2) (labels s2) (inses s2) = Inr is3"
    and lay: "map layout is3 = map layout (inses s2)"
    and keep: "\<forall>k < ?n. site_ok ?n (inses s2 ! k) \<longrightarrow> site_ok ?n (is3 ! k)"
    and same: "\<forall>k < ?n. (\<forall>a \<in> set (labels s2). k \<notin> set (use_sites (heap s2 a))) \<longrightarrow>
                 is3 ! k = inses s2 ! k"
    using rewrite_all_sites [OF f(4) f(5) f(6)] by blast
  have t: "t = s2\<lparr>inses := is3\<rparr>" using p3 r by (simp add: phase3_def)
  have n3: "length is3 = ?n" using lay by (metis length_map)
  obtain is1 where m: "make_all (length (inses s)) (inses s) = Inr is1"
    and s1: "s1 = s\<lparr>inses := is1\<rparr>"
    using p1 by (auto simp: phase1_def split: sum.splits)
  have n1: "?n = length (inses s)" using f(1) f(3) by simp
  have made1: "\<forall>k < ?n. ins_make ?n (inses s2 ! k) (CODE (inses s2 ! k)) = Inr (inses s2 ! k)"
  proof (intro allI impI)
    fix k assume "k < ?n"
    then have "ins_make (length (inses s)) (inses s ! k) (CODE (inses s ! k)) = Inr (is1 ! k)"
      using make_all_nth [OF m] n1 by simp
    from ins_make_idem [OF this]
    show "ins_make ?n (inses s2 ! k) (CODE (inses s2 ! k)) = Inr (inses s2 ! k)"
      using f(1) s1 n1 by simp
  qed
  have made3: "\<forall>i \<in> set is3. ins_make (length is3) i (CODE i) = Inr i"
  proof
    fix i assume "i \<in> set is3"
    then obtain k where k: "k < ?n" and ik: "is3 ! k = i"
      using n3 by (auto simp: in_set_conv_nth)
    show "ins_make (length is3) i (CODE i) = Inr i"
    proof (cases "\<forall>a \<in> set (labels s2). k \<notin> set (use_sites (heap s2 a))")
      case True
      then have "is3 ! k = inses s2 ! k" using same k by simp
      then show ?thesis using made1 k ik n3 by simp
    next
      case False
      then have "site_ok ?n (inses s2 ! k)" using f(5) by auto
      then have "site_ok ?n (is3 ! k)" using keep k by simp
      then show ?thesis using site_ok_made ik n3 by simp
    qed
  qed
  have q1: "phase1 t = Inr t"
    using make_all_fixed [OF made3] t by (simp add: phase1_def)
  obtain h2 where rs: "resolve_all (inses s1) (labels s1) (heap s1) = Inr h2"
    and s2: "s2 = s1\<lparr>heap := h2\<rparr>"
    using p2 by (auto simp: phase2_def split: sum.splits)
  have "\<forall>a \<in> set (labels s1). Label_resolve (inses s1) (h2 a) = Inr (h2 a)"
    using resolve_all_resolved [OF rs] by simp
  then have "\<forall>a \<in> set (labels t). Label_resolve (inses t) (heap t a) = Inr (heap t a)"
    using Label_resolve_cong [OF layout_lens [OF lay]] t s2 f(1) by simp
  then have q2: "phase2 t = Inr t"
    using resolve_all_fixed by (simp add: phase2_def)
  have ag: "agree ?D (inses s2) is3"
    unfolding agree_def using lay same by auto
  have sites: "\<forall>a \<in> set (labels s2). \<forall>u \<in> set (use_sites (heap s2 a)).
                 u < ?n \<and> site_ok ?n (inses s2 ! u) \<and> site_ok ?n (is3 ! u)"
    using f(5) keep by simp
  obtain js js' where j: "rewrite_all (heap s2) (labels s2) (inses s2) = Inr js"
    and j': "rewrite_all (heap s2) (labels s2) is3 = Inr js'"
    and ag': "agree (?D - ?D) js js'"
    using rewrite_all_agree [OF ag f(4) sites f(6)] by blast
  have "js = is3" using j r by simp
  moreover have "js' = js" using ag' by (simp add: agree_empty)
  ultimately have "rewrite_all (heap t) (labels t) (inses t) = Inr (inses t)"
    using j' t by simp
  then have q3: "phase3 t = Inr t" by (simp add: phase3_def)
  show ?thesis using q1 q2 q3 e by (simp add: assemble_def)
qed

subsection \<open>Repeating an assembly\<close>

text \<open>
  C9, as the claim states it, fails: \<^verbatim>\<open>assemble()\<close> patches the operands of the session's
  instructions in place, and the session (the module's instruction stream and label table)
  is never reset, so neither assembling again nor making the same calls again gives the
  same buffer in general. In \<^verbatim>\<open>jmp(B, ref(A)); y = ref(B); push(Q, r1); tag(A); tag(B)\<close> the
  first \<^verbatim>\<open>assemble()\<close> lengthens the \<^verbatim>\<open>push\<close> from 3 to 10 bytes, and a second \<^verbatim>\<open>assemble()\<close>
  resolves \<^verbatim>\<open>A\<close> behind the longer \<^verbatim>\<open>push\<close>: the displacement of the \<^verbatim>\<open>jmp\<close> is 3 in the first
  buffer and 10 in the second. And the calls \<^verbatim>\<open>L = Label('L'); tag(L); jmp(B, ref(L));
  assemble()\<close> return 3 bytes from the empty session and, made again in the session they
  left, 6 bytes.
\<close>

theorem assembling_twice_differs:
  "(\<exists>s out t out' t'. stray_ref_after_jmp_program = Inr s \<and> assemble s = Inr (out, t) \<and>
      assemble t = Inr (out', t') \<and>
      out = [0x13, 0x17, 3, 0x0e, 0x47, 0, 0, 0, 0, 0, 0, 0, 0] \<and>
      out' = [0x13, 0x17, 10, 0x0e, 0x47, 0, 0, 0, 0, 0, 0, 0, 0]) \<and>
   (\<exists>s out t s' out' t'. self_jump_calls init = Inr s \<and> assemble s = Inr (out, t) \<and>
      self_jump_calls t = Inr s' \<and> assemble s' = Inr (out', t') \<and>
      out = [0x13, 0x17, 0xfd] \<and> out' = [0x13, 0x17, 0xfd, 0x13, 0x17, 0xfd])"
proof -
  have "\<exists>s out t. stray_ref_after_jmp_program = Inr s \<and> assemble s = Inr (out, t) \<and>
     out = [0x13, 0x17, 3, 0x0e, 0x47, 0, 0, 0, 0, 0, 0, 0, 0] \<and>
     inses t = [UnOp Jmp (Imm (Some 3)) 8 (Some [0x13, 0x17, 3]),
                UnOp Push (Imm (Some 0)) 64 (Some [0x0e, 0x47, 0, 0, 0, 0, 0, 0, 0, 0])] \<and>
     labels t = [0, 1] \<and>
     heap t 0 = \<lparr>name = ''A'', use_sites = [0], def_site = Some 2, resolved = Some 6\<rparr> \<and>
     heap t 1 = \<lparr>name = ''B'', use_sites = [1], def_site = Some 2, resolved = Some 6\<rparr>"
    by (simp add: stray_ref_after_jmp_program_def api_defs enc_defs asm_defs eval_nat_numeral)
  then obtain s out t where p: "stray_ref_after_jmp_program = Inr s"
    and a: "assemble s = Inr (out, t)"
    and o: "out = [0x13, 0x17, 3, 0x0e, 0x47, 0, 0, 0, 0, 0, 0, 0, 0]"
    and t: "inses t = [UnOp Jmp (Imm (Some 3)) 8 (Some [0x13, 0x17, 3]),
                       UnOp Push (Imm (Some 0)) 64 (Some [0x0e, 0x47, 0, 0, 0, 0, 0, 0, 0, 0])]"
      "labels t = [0, 1]"
      "heap t 0 = \<lparr>name = ''A'', use_sites = [0], def_site = Some 2, resolved = Some 6\<rparr>"
      "heap t 1 = \<lparr>name = ''B'', use_sites = [1], def_site = Some 2, resolved = Some 6\<rparr>"
    by blast
  have "\<exists>out' t'. assemble t = Inr (out', t') \<and>
          out' = [0x13, 0x17, 10, 0x0e, 0x47, 0, 0, 0, 0, 0, 0, 0, 0]"
    using t by (simp add: enc_defs asm_defs eval_nat_numeral)
  then have 1: "\<exists>s out t out' t'. stray_ref_after_jmp_program = Inr s \<and> assemble s = Inr (out, t) \<and>
      assemble t = Inr (out', t') \<and>
      out = [0x13, 0x17, 3, 0x0e, 0x47, 0, 0, 0, 0, 0, 0, 0, 0] \<and>
      out' = [0x13, 0x17, 10, 0x0e, 0x47, 0, 0, 0, 0, 0, 0, 0, 0]"
    using p a o by blast
  have "\<exists>s out t. self_jump_calls init = Inr s \<and> assemble s = Inr (out, t) \<and>
     out = [0x13, 0x17, 0xfd] \<and>
     inses t = [UnOp Jmp (Imm (Some 253)) 8 (Some [0x13, 0x17, 0xfd])] \<and>
     labels t = [0] \<and> nlabels t = 1 \<and>
     heap t 0 = \<lparr>name = ''L'', use_sites = [0], def_site = Some 0, resolved = Some 0\<rparr>"
    by (simp add: self_jump_calls_def api_defs enc_defs asm_defs eval_nat_numeral)
  then obtain s out t where q: "self_jump_calls init = Inr s"
    and b: "assemble s = Inr (out, t)" and ob: "out = [0x13, 0x17, 0xfd]"
    and tb: "inses t = [UnOp Jmp (Imm (Some 253)) 8 (Some [0x13, 0x17, 0xfd])]"
      "labels t = [0]" "nlabels t = 1"
      "heap t 0 = \<lparr>name = ''L'', use_sites = [0], def_site = Some 0, resolved = Some 0\<rparr>"
    by blast
  have "\<exists>s' out' t'. self_jump_calls t = Inr s' \<and> assemble s' = Inr (out', t') \<and>
          out' = [0x13, 0x17, 0xfd, 0x13, 0x17, 0xfd]"
    using tb by (simp add: self_jump_calls_def api_defs enc_defs asm_defs eval_nat_numeral)
  then have 2: "\<exists>s out t s' out' t'. self_jump_calls init = Inr s \<and> assemble s = Inr (out, t) \<and>
      self_jump_calls t = Inr s' \<and> assemble s' = Inr (out', t') \<and>
      out = [0x13, 0x17, 0xfd] \<and> out' = [0x13, 0x17, 0xfd, 0x13, 0x17, 0xfd]"
    using q b ob by blast
  show ?thesis by (intro conjI 1 2)
qed

text \<open>
  C9, amended. The buffer that \<^verbatim>\<open>assemble()\<close> returns, or the error it raises, is determined
  by what the construction calls recorded in the session (the instructions with their
  operands and sizes, the label table, and each label's name, definition site and use
  sites): two sessions that agree on it yield the same buffer or the same error, whatever
  bytecode the instructions and whatever resolved offsets the labels carry from before.
  And in a session where every recorded use site of a label of the table holds a label
  reference, a successful \<^verbatim>\<open>assemble()\<close> can be repeated: a second one returns the same
  buffer and leaves the session as the first left it.
\<close>

theorem assemble_repeatable:
  "(recorded s' = recorded s \<longrightarrow>
      map_sum id fst (assemble s') = map_sum id fst (assemble s)) \<and>
   (assemble s = Inr (out, t) \<and> use_sites_ok s \<longrightarrow> assemble t = Inr (out, t))"
  using assemble_recorded [of s' s] assemble_again [of s out t] by blast

theorem assemble_repeatable_witness:
  "\<exists>s out t s1 s2. backward_jump_program = Inr s \<and> use_sites_ok s \<and>
     assemble s = Inr (out, t) \<and> out = [2, 0x40, 1, 8, 0x18, 0x17, 249, 0] \<and>
     assemble t = Inr (out, t) \<and>
     phase1 s = Inr s1 \<and> phase2 s1 = Inr s2 \<and> resolved (heap s2 0) \<noteq> resolved (heap s 0) \<and>
     recorded s2 = recorded s \<and> map_sum id fst (assemble s2) = Inr out"
proof -
  have "\<exists>s. backward_jump_program = Inr s \<and> use_sites_ok s \<and>
          (\<exists>out t. assemble s = Inr (out, t) \<and> out = [2, 0x40, 1, 8, 0x18, 0x17, 249, 0]) \<and>
          (\<exists>s1. phase1 s = Inr s1 \<and>
             (\<exists>s2. phase2 s1 = Inr s2 \<and> resolved (heap s2 0) \<noteq> resolved (heap s 0)))"
    by (simp add: backward_jump_program_def use_sites_ok_def api_defs enc_defs asm_defs
        eval_nat_numeral)
  then obtain s out t s1 s2 where p: "backward_jump_program = Inr s" and ok: "use_sites_ok s"
    and a: "assemble s = Inr (out, t)" and o: "out = [2, 0x40, 1, 8, 0x18, 0x17, 249, 0]"
    and s1: "phase1 s = Inr s1" and s2: "phase2 s1 = Inr s2"
    and ne: "resolved (heap s2 0) \<noteq> resolved (heap s 0)"
    by blast
  have rec: "recorded s2 = recorded s" by (rule phases_keep_recorded [OF s1 s2])
  note th = assemble_repeatable [of s2 s out t]
  have again: "assemble t = Inr (out, t)" using th a ok by blast
  have same: "map_sum id fst (assemble s2) = Inr out" using th rec a by simp
  show ?thesis
    by (rule exI [of _ s], rule exI [of _ out], rule exI [of _ t], rule exI [of _ s1],
        rule exI [of _ s2], intro conjI p ok a o again s1 s2 ne rec same)
qed

end
